theory Spec2Isabelle
  imports Main "HOL-Library.Word" "HOL-Library.Sublist" "HOL-Library.Monad_Syntax"
begin

unbundle bit_operations_syntax

section \<open>Primitive types (types.hpp)\<close>

text \<open>
  A \<open>Square\<close> is a \<open>std::uint8_t\<close>; it is modelled as a natural number and every
  \<open>static_cast<Square>\<close> of the source is written out as a reduction modulo 256.
  The sentinel \<open>kNoSquare\<close> is 64.
\<close>

type_synonym Square = nat
type_synonym Bitboard = "64 word"

definition kNoSquare :: Square where
  "kNoSquare = 64"

definition to_Square :: "int \<Rightarrow> Square" where
  "to_Square i = nat (i mod 256)"

definition file_of :: "Square \<Rightarrow> nat" where
  "file_of sq = sq mod 8"

definition rank_of :: "Square \<Rightarrow> nat" where
  "rank_of sq = sq div 8"

definition make_square :: "nat \<Rightarrow> nat \<Rightarrow> Square" where
  "make_square file rank = (rank * 8 + file) mod 256"

datatype Color = White | Black

fun opposite :: "Color \<Rightarrow> Color" where
  "opposite White = Black"
| "opposite Black = White"

fun color_index :: "Color \<Rightarrow> nat" where
  "color_index White = 0"
| "color_index Black = 1"

datatype PieceType = NoType | Pawn | Knight | Bishop | Rook | Queen | King

text \<open>\<open>static_cast<int>(pt)\<close>, the position of the enumerator.\<close>

fun piece_type_int :: "PieceType \<Rightarrow> int" where
  "piece_type_int NoType = 0"
| "piece_type_int Pawn = 1"
| "piece_type_int Knight = 2"
| "piece_type_int Bishop = 3"
| "piece_type_int Rook = 4"
| "piece_type_int Queen = 5"
| "piece_type_int King = 6"

definition piece_index :: "PieceType \<Rightarrow> int" where
  "piece_index pt = piece_type_int pt - 1"

datatype MoveFlag = Normal | DoublePawn | EnPassant | CastleKingside | CastleQueenside | Promotion

text \<open>
  The characters of a \<open>std::string_view\<close> are read through their code; the source
  subtracts character literals, which is integer arithmetic after promotion.
\<close>

definition char_code :: "char \<Rightarrow> int" where
  "char_code c = int (of_char c)"

definition square_name :: "Square \<Rightarrow> string" where
  "square_name sq = [char_of (97 + file_of sq), char_of (49 + rank_of sq)]"

definition parse_square :: "string \<Rightarrow> Square" where
  "parse_square name =
     (if length name \<noteq> 2 then kNoSquare
      else let f = char_code (name ! 0) - 97;
               r = char_code (name ! 1) - 49
           in if f < 0 \<or> f > 7 \<or> r < 0 \<or> r > 7 then kNoSquare
              else make_square (nat f) (nat r))"

section \<open>Moves (move.hpp)\<close>

datatype Move = Move (from_sq: Square) (to_sq: Square) (flag: MoveFlag) (promotion: PieceType)

definition kNullMove :: Move where
  "kNullMove = Move 0 0 Normal NoType"

definition is_null :: "Move \<Rightarrow> bool" where
  "is_null m \<longleftrightarrow> from_sq m = 0 \<and> to_sq m = 0 \<and> flag m = Normal \<and> promotion m = NoType"

text \<open>The table \<open>kPromoChars\<close> of \<open>Move::uci\<close>, indexed by the promotion type.\<close>

fun kPromoChars :: "PieceType \<Rightarrow> char" where
  "kPromoChars Knight = CHR ''n''"
| "kPromoChars Bishop = CHR ''b''"
| "kPromoChars Rook = CHR ''r''"
| "kPromoChars Queen = CHR ''q''"
| "kPromoChars _ = CHR '' ''"

definition uci :: "Move \<Rightarrow> string" where
  "uci m =
     (let s = square_name (from_sq m) @ square_name (to_sq m)
      in if promotion m \<noteq> NoType then s @ [kPromoChars (promotion m)] else s)"

text \<open>The \<open>switch\<close> on the fifth character in \<open>Move::from_uci\<close>.\<close>

definition promo_of_char :: "char \<Rightarrow> PieceType" where
  "promo_of_char c =
     (if c = CHR ''n'' then Knight
      else if c = CHR ''b'' then Bishop
      else if c = CHR ''r'' then Rook
      else if c = CHR ''q'' then Queen
      else NoType)"

definition from_uci :: "string \<Rightarrow> Move" where
  "from_uci uci_str =
     (if length uci_str < 4 then kNullMove
      else let from = parse_square (take 2 uci_str);
               to = parse_square (take 2 (drop 2 uci_str))
           in if from = kNoSquare \<or> to = kNoSquare then kNullMove
              else if length uci_str \<ge> 5
                   then Move from to Promotion (promo_of_char (uci_str ! 4))
                   else Move from to Normal NoType)"

section \<open>Transposition table (tt.hpp, tt.cpp)\<close>

datatype Bound = NoBound | Exact | Lower | Upper

record TTEntry =
  key32 :: "32 word"
  score :: "16 word"
  static_eval :: "16 word"
  best_move :: Move
  depth :: "8 word"
  bound :: Bound
  age :: "8 word"
  padding :: "8 word"

record TranspositionTable =
  tt_table :: "TTEntry list"
  tt_mask :: "64 word"
  tt_age :: "8 word"

definition key_upper :: "64 word \<Rightarrow> 32 word" where
  "key_upper key = ucast (drop_bit 32 key)"

definition index :: "TranspositionTable \<Rightarrow> 64 word \<Rightarrow> nat" where
  "index tt key = unat (key AND tt_mask tt)"

text \<open>
  The replacement test of \<open>store\<close>. The new depth is an \<open>int\<close>; the stored depth is
  promoted from \<open>uint8_t\<close> for the comparison.
\<close>

definition should_replace :: "TTEntry \<Rightarrow> 8 word \<Rightarrow> int \<Rightarrow> Bound \<Rightarrow> bool" where
  "should_replace slot cur_age new_depth new_bound \<longleftrightarrow>
     bound slot = NoBound
     \<or> age slot \<noteq> cur_age
     \<or> new_depth \<ge> uint (depth slot)
     \<or> (new_bound = Exact \<and> bound slot \<noteq> Exact)"

text \<open>
  \<open>TranspositionTable::store\<close>. The slot is \<open>table_[idx]\<close>; an index outside the vector
  is an out-of-bounds access in the source and is the result \<open>None\<close> here (it does not
  occur when \<open>mask_\<close> is the entry count minus one, as \<open>resize\<close> sets it).
\<close>

definition store ::
  "TranspositionTable \<Rightarrow> 64 word \<Rightarrow> int \<Rightarrow> int \<Rightarrow> Bound \<Rightarrow> Move \<Rightarrow> int \<Rightarrow> TranspositionTable option" where
  "store tt key new_depth new_score new_bound new_best_move new_static_eval =
     (let idx = index tt key in
      if idx \<ge> length (tt_table tt) then None
      else
        let slot = tt_table tt ! idx;
            k32 = key_upper key
        in if \<not> should_replace slot (tt_age tt) new_depth new_bound then Some tt
           else
             let bm = (if key32 slot = k32 \<and> is_null new_best_move \<and> \<not> is_null (best_move slot)
                       then best_move slot else new_best_move);
                 slot' = slot\<lparr> key32 := k32,
                               score := word_of_int new_score,
                               static_eval := word_of_int new_static_eval,
                               best_move := bm,
                               depth := word_of_int new_depth,
                               bound := new_bound,
                               age := tt_age tt \<rparr>
             in Some (tt\<lparr> tt_table := (tt_table tt)[idx := slot'] \<rparr>))"

section \<open>Bitboards (bitboard.hpp)\<close>

definition kEmptyBB :: Bitboard where
  "kEmptyBB = 0"

text \<open>\<open>1ULL << sq\<close>; the callers keep \<open>sq\<close> below 64.\<close>

definition square_bb :: "Square \<Rightarrow> Bitboard" where
  "square_bb sq = push_bit sq 1"

definition test_bit :: "Bitboard \<Rightarrow> Square \<Rightarrow> bool" where
  "test_bit b sq \<longleftrightarrow> drop_bit sq b AND 1 \<noteq> 0"

definition bb_set_bit :: "Bitboard \<Rightarrow> Square \<Rightarrow> Bitboard" where
  "bb_set_bit b sq = b OR square_bb sq"

definition clear_bit :: "Bitboard \<Rightarrow> Square \<Rightarrow> Bitboard" where
  "clear_bit b sq = b AND NOT (square_bb sq)"

text \<open>
  \<open>std::popcount\<close> and \<open>std::countr_zero\<close> on a 64-bit word: the number of set bits, and
  the index of the lowest set bit (64 when the word is zero).
\<close>

definition popcount :: "Bitboard \<Rightarrow> nat" where
  "popcount b = length (filter (bit b) [0..<64])"

definition lsb :: "Bitboard \<Rightarrow> Square" where
  "lsb b = (case find (bit b) [0..<64] of Some n \<Rightarrow> n | None \<Rightarrow> 64)"

text \<open>
  The loops \<open>while (bb) { Square sq = pop_lsb(bb); ... }\<close>: \<open>pop_lsb\<close> returns \<open>lsb bb\<close>
  and leaves \<open>bb & (bb - 1)\<close>. \<open>bb_squares\<close> is the sequence of squares such a loop visits.
\<close>

function bb_squares :: "Bitboard \<Rightarrow> Square list" where
  "bb_squares b = (if b = 0 then [] else lsb b # bb_squares (b AND (b - 1)))"
  by pat_completeness auto
termination
proof (relation "measure unat")
  show "wf (measure unat)" by simp
next
  fix b :: Bitboard
  assume nz: "b \<noteq> 0"
  have "b AND (b - 1) \<le> b - 1" by (rule word_and_le1)
  moreover have "b - 1 < b" using nz by (simp add: word_less_nat_alt unat_minus_one unat_gt_0)
  ultimately have "b AND (b - 1) < b" by simp
  then show "(b AND (b - 1), b) \<in> measure unat" by (simp add: word_less_nat_alt)
qed

declare bb_squares.simps [simp del]

definition kFileA :: Bitboard where "kFileA = 0x0101010101010101"
definition kFileB :: Bitboard where "kFileB = push_bit 1 kFileA"
definition kFileG :: Bitboard where "kFileG = push_bit 6 kFileA"
definition kFileH :: Bitboard where "kFileH = push_bit 7 kFileA"

definition kRank1 :: Bitboard where "kRank1 = 0x00000000000000FF"
definition kRank3 :: Bitboard where "kRank3 = push_bit 16 kRank1"
definition kRank6 :: Bitboard where "kRank6 = push_bit 40 kRank1"
definition kRank8 :: Bitboard where "kRank8 = push_bit 56 kRank1"

definition shift_north :: "Bitboard \<Rightarrow> Bitboard" where "shift_north b = push_bit 8 b"
definition shift_south :: "Bitboard \<Rightarrow> Bitboard" where "shift_south b = drop_bit 8 b"
definition shift_east :: "Bitboard \<Rightarrow> Bitboard" where "shift_east b = push_bit 1 b AND NOT kFileA"
definition shift_west :: "Bitboard \<Rightarrow> Bitboard" where "shift_west b = drop_bit 1 b AND NOT kFileH"
definition shift_ne :: "Bitboard \<Rightarrow> Bitboard" where "shift_ne b = push_bit 9 b AND NOT kFileA"
definition shift_nw :: "Bitboard \<Rightarrow> Bitboard" where "shift_nw b = push_bit 7 b AND NOT kFileH"
definition shift_se :: "Bitboard \<Rightarrow> Bitboard" where "shift_se b = drop_bit 7 b AND NOT kFileA"
definition shift_sw :: "Bitboard \<Rightarrow> Bitboard" where "shift_sw b = drop_bit 9 b AND NOT kFileH"

text \<open>
  The tables \<open>kKnightAttacksData\<close>, \<open>kKingAttacksData\<close> and \<open>kPawnAttacksData\<close> hold, at
  index \<open>sq\<close> in 0..63, the value computed below; they have no entry for other indices,
  and the callers below check the index where it is not the result of \<open>lsb\<close> on a
  non-zero word.
\<close>

definition knight_attacks :: "Square \<Rightarrow> Bitboard" where
  "knight_attacks sq =
     (let bb = square_bb sq in
        (push_bit 17 bb AND NOT kFileA)
     OR (push_bit 15 bb AND NOT kFileH)
     OR (push_bit 10 bb AND NOT (kFileA OR kFileB))
     OR (push_bit 6 bb AND NOT (kFileG OR kFileH))
     OR (drop_bit 6 bb AND NOT (kFileA OR kFileB))
     OR (drop_bit 10 bb AND NOT (kFileG OR kFileH))
     OR (drop_bit 15 bb AND NOT kFileA)
     OR (drop_bit 17 bb AND NOT kFileH))"

definition king_attacks :: "Square \<Rightarrow> Bitboard" where
  "king_attacks sq =
     (let bb = square_bb sq in
        shift_north bb OR shift_south bb OR shift_east bb OR shift_west bb
     OR shift_ne bb OR shift_nw bb OR shift_se bb OR shift_sw bb)"

definition pawn_attacks :: "Color \<Rightarrow> Square \<Rightarrow> Bitboard" where
  "pawn_attacks c sq =
     (let bb = square_bb sq in
      case c of White \<Rightarrow> shift_ne bb OR shift_nw bb
              | Black \<Rightarrow> shift_se bb OR shift_sw bb)"

section \<open>Pieces and the board (piece.hpp, board.hpp)\<close>

datatype Piece = Piece (color: Color) (ptype: PieceType)

definition kNoPiece :: Piece where
  "kNoPiece = Piece White NoType"

definition from_fen_char :: "char \<Rightarrow> Piece" where
  "from_fen_char ch =
     (if ch = CHR ''P'' then Piece White Pawn
      else if ch = CHR ''N'' then Piece White Knight
      else if ch = CHR ''B'' then Piece White Bishop
      else if ch = CHR ''R'' then Piece White Rook
      else if ch = CHR ''Q'' then Piece White Queen
      else if ch = CHR ''K'' then Piece White King
      else if ch = CHR ''p'' then Piece Black Pawn
      else if ch = CHR ''n'' then Piece Black Knight
      else if ch = CHR ''b'' then Piece Black Bishop
      else if ch = CHR ''r'' then Piece Black Rook
      else if ch = CHR ''q'' then Piece Black Queen
      else if ch = CHR ''k'' then Piece Black King
      else Piece White NoType)"

text \<open>
  The arrays \<open>pieces_[2][6]\<close>, \<open>occupied_[2]\<close> and \<open>mailbox_[64]\<close> are functions of their
  index. \<open>pieces_\<close> has no slot for \<open>PieceType::None\<close> (its \<open>piece_index\<close> is -1) and the
  mailbox has none for squares above 63: the operations below return \<open>None\<close> where the
  source would index outside an array.
\<close>

record Board =
  pieces :: "Color \<Rightarrow> PieceType \<Rightarrow> Bitboard"
  occupied :: "Color \<Rightarrow> Bitboard"
  occupied_all :: Bitboard
  mailbox :: "Square \<Rightarrow> Piece"

definition empty_board :: Board where
  "empty_board = \<lparr> pieces = (\<lambda>c t. kEmptyBB), occupied = (\<lambda>c. kEmptyBB),
                    occupied_all = kEmptyBB, mailbox = (\<lambda>sq. kNoPiece) \<rparr>"

definition put_piece :: "Board \<Rightarrow> Square \<Rightarrow> Piece \<Rightarrow> Board option" where
  "put_piece b sq p =
     (if sq \<ge> 64 \<or> piece_index (ptype p) < 0 then None
      else Some (b\<lparr> pieces := (pieces b)(color p := (pieces b (color p))
                                  (ptype p := bb_set_bit (pieces b (color p) (ptype p)) sq)),
                     occupied := (occupied b)(color p := bb_set_bit (occupied b (color p)) sq),
                     occupied_all := bb_set_bit (occupied_all b) sq,
                     mailbox := (mailbox b)(sq := p) \<rparr>))"

definition remove_piece :: "Board \<Rightarrow> Square \<Rightarrow> Board option" where
  "remove_piece b sq =
     (if sq \<ge> 64 then None
      else let p = mailbox b sq in
        if piece_index (ptype p) < 0 then None
        else Some (b\<lparr> pieces := (pieces b)(color p := (pieces b (color p))
                                    (ptype p := clear_bit (pieces b (color p) (ptype p)) sq)),
                       occupied := (occupied b)(color p := clear_bit (occupied b (color p)) sq),
                       occupied_all := clear_bit (occupied_all b) sq,
                       mailbox := (mailbox b)(sq := kNoPiece) \<rparr>))"

definition piece_at :: "Board \<Rightarrow> Square \<Rightarrow> Piece option" where
  "piece_at b sq = (if sq < 64 then Some (mailbox b sq) else None)"

definition is_empty :: "Board \<Rightarrow> Square \<Rightarrow> bool option" where
  "is_empty b sq = (if sq < 64 then Some (ptype (mailbox b sq) = NoType) else None)"

definition king_square :: "Board \<Rightarrow> Color \<Rightarrow> Square" where
  "king_square b c = lsb (pieces b c King)"

section \<open>Zobrist keys (zobrist.hpp)\<close>

definition kSeed :: "64 word" where
  "kSeed = 0xA5B3C7D9E1F23412"

definition splitmix64 :: "64 word \<Rightarrow> 64 word" where
  "splitmix64 state =
     (let z = state + 0x9E3779B97F4A7C15;
          z = (z XOR drop_bit 30 z) * 0xBF58476D1CE4E5B9;
          z = (z XOR drop_bit 27 z) * 0x94D049BB133111EB
      in z XOR drop_bit 31 z)"

definition nth_key :: "nat \<Rightarrow> 64 word" where
  "nth_key i = splitmix64 (kSeed + of_nat i)"

text \<open>
  \<open>kKeys.piece_keys[color][piece_index][sq]\<close>, \<open>kKeys.castling_keys[cr & 0xF]\<close> and
  \<open>kKeys.en_passant_keys[sq]\<close>, with the values \<open>compute_keys\<close> stores there.
\<close>

definition piece_key :: "Color \<Rightarrow> PieceType \<Rightarrow> Square \<Rightarrow> 64 word option" where
  "piece_key c pt sq =
     (if piece_index pt < 0 \<or> sq \<ge> 64 then None
      else Some (nth_key (color_index c * 384 + nat (piece_index pt) * 64 + sq)))"

definition side_to_move_key :: "64 word" where
  "side_to_move_key = nth_key (2 * 6 * 64)"

type_synonym CastlingRights = "8 word"

definition kCastlingNone :: CastlingRights where "kCastlingNone = 0"
definition kWhiteKingside :: CastlingRights where "kWhiteKingside = 1"
definition kWhiteQueenside :: CastlingRights where "kWhiteQueenside = 2"
definition kBlackKingside :: CastlingRights where "kBlackKingside = 4"
definition kBlackQueenside :: CastlingRights where "kBlackQueenside = 8"
definition kWhiteBoth :: CastlingRights where "kWhiteBoth = kWhiteKingside OR kWhiteQueenside"
definition kBlackBoth :: CastlingRights where "kBlackBoth = kBlackKingside OR kBlackQueenside"
definition kCastlingAll :: CastlingRights where "kCastlingAll = kWhiteBoth OR kBlackBoth"

text \<open>\<open>operator~\<close> on \<open>CastlingRights\<close>: the complement within the four bits.\<close>

definition cr_not :: "CastlingRights \<Rightarrow> CastlingRights" where
  "cr_not a = NOT a AND 0xF"

definition castling_key :: "CastlingRights \<Rightarrow> 64 word" where
  "castling_key cr = nth_key (2 * 6 * 64 + 1 + unat (cr AND 0xF))"

definition en_passant_key :: "Square \<Rightarrow> 64 word option" where
  "en_passant_key sq = (if sq < 64 then Some (nth_key (2 * 6 * 64 + 1 + 16 + sq)) else None)"

section \<open>Positions (position.hpp, position.cpp)\<close>

record UndoInfo =
  undo_castling :: CastlingRights
  undo_en_passant :: Square
  undo_halfmove_clock :: int
  undo_captured :: Piece
  undo_key :: "64 word"

text \<open>
  The clocks are \<open>int\<close>s; they are modelled as unbounded integers (signed overflow of a
  clock is not modelled). The two vectors grow at the end.
\<close>

record Position =
  board :: Board
  side_to_move :: Color
  castling :: CastlingRights
  en_passant :: Square
  halfmove_clock :: int
  fullmove_number :: int
  key :: "64 word"
  history :: "UndoInfo list"
  key_history :: "64 word list"

definition castling_mask_for :: "Square \<Rightarrow> CastlingRights" where
  "castling_mask_for sq =
     (if sq = 0 then kCastlingAll AND cr_not kWhiteQueenside
      else if sq = 7 then kCastlingAll AND cr_not kWhiteKingside
      else if sq = 4 then kCastlingAll AND cr_not kWhiteBoth
      else if sq = 56 then kCastlingAll AND cr_not kBlackQueenside
      else if sq = 63 then kCastlingAll AND cr_not kBlackKingside
      else if sq = 60 then kCastlingAll AND cr_not kBlackBoth
      else kCastlingAll)"

definition kCastleMask :: "Square \<Rightarrow> CastlingRights option" where
  "kCastleMask sq = (if sq < 64 then Some (castling_mask_for sq) else None)"

definition toggle_piece_hash :: "Position \<Rightarrow> Piece \<Rightarrow> Square \<Rightarrow> Position option" where
  "toggle_piece_hash pos p sq =
     do { k \<leftarrow> piece_key (color p) (ptype p) sq; Some (pos\<lparr> key := key pos XOR k \<rparr>) }"

definition toggle_side_hash :: "Position \<Rightarrow> Position" where
  "toggle_side_hash pos = pos\<lparr> key := key pos XOR side_to_move_key \<rparr>"

definition set_castling :: "Position \<Rightarrow> CastlingRights \<Rightarrow> Position" where
  "set_castling pos cr =
     (if cr = castling pos then pos
      else let pos = pos\<lparr> key := key pos XOR castling_key (castling pos) \<rparr>;
               pos = pos\<lparr> castling := cr \<rparr>
           in pos\<lparr> key := key pos XOR castling_key (castling pos) \<rparr>)"

definition toggle_en_passant_hash :: "Position \<Rightarrow> Position option" where
  "toggle_en_passant_hash pos =
     (if en_passant pos \<noteq> kNoSquare
      then do { k \<leftarrow> en_passant_key (en_passant pos); Some (pos\<lparr> key := key pos XOR k \<rparr>) }
      else Some pos)"

definition set_en_passant :: "Position \<Rightarrow> Square \<Rightarrow> Position option" where
  "set_en_passant pos ep =
     (if ep = en_passant pos then Some pos
      else do {
        pos \<leftarrow> toggle_en_passant_hash pos;
        let pos = pos\<lparr> en_passant := ep \<rparr>;
        toggle_en_passant_hash pos
      })"

text \<open>The board operations of \<open>board_\<close> inside a position.\<close>

definition pos_put_piece :: "Position \<Rightarrow> Square \<Rightarrow> Piece \<Rightarrow> Position option" where
  "pos_put_piece pos sq p = do { b \<leftarrow> put_piece (board pos) sq p; Some (pos\<lparr> board := b \<rparr>) }"

definition pos_remove_piece :: "Position \<Rightarrow> Square \<Rightarrow> Position option" where
  "pos_remove_piece pos sq = do { b \<leftarrow> remove_piece (board pos) sq; Some (pos\<lparr> board := b \<rparr>) }"

text \<open>
  The loop of \<open>compute_key\<close> over the squares 0..63, from the square \<open>sq\<close> on, with the
  key accumulated so far.
\<close>

fun key_of_squares :: "Board \<Rightarrow> Square list \<Rightarrow> 64 word \<Rightarrow> 64 word option" where
  "key_of_squares b [] k = Some k"
| "key_of_squares b (sq # sqs) k =
     (let p = mailbox b sq in
      if p \<noteq> kNoPiece
      then do { pk \<leftarrow> piece_key (color p) (ptype p) sq; key_of_squares b sqs (k XOR pk) }
      else key_of_squares b sqs k)"

definition key_from_scratch :: "Position \<Rightarrow> 64 word option" where
  "key_from_scratch pos =
     (let k = 0 XOR castling_key (castling pos);
          k = (if side_to_move pos = Black then k XOR side_to_move_key else k)
      in do {
        k \<leftarrow> (if en_passant pos \<noteq> kNoSquare
              then do { ek \<leftarrow> en_passant_key (en_passant pos); Some (k XOR ek) }
              else Some k);
        key_of_squares (board pos) [0..<64] k
      })"

definition compute_key :: "Position \<Rightarrow> Position option" where
  "compute_key pos =
     do { k \<leftarrow> key_from_scratch pos; Some (pos\<lparr> key := k, key_history := [k] \<rparr>) }"

text \<open>The constructor \<open>Position(board, side, castling, ep, halfmove, fullmove)\<close>.\<close>

definition new_Position ::
  "Board \<Rightarrow> Color \<Rightarrow> CastlingRights \<Rightarrow> Square \<Rightarrow> int \<Rightarrow> int \<Rightarrow> Position option" where
  "new_Position b side cr ep halfmove fullmove =
     compute_key \<lparr> board = b, side_to_move = side, castling = cr, en_passant = ep,
                   halfmove_clock = halfmove, fullmove_number = fullmove, key = 0,
                   history = [], key_history = [] \<rparr>"

text \<open>
  The rook slide of a castling move in \<open>make_move\<close> (the same five statements for both
  sides of the board), and its reversal in \<open>unmake_move\<close>, which does no hashing.
\<close>

definition slide_rook :: "Position \<Rightarrow> Square \<Rightarrow> Square \<Rightarrow> Position option" where
  "slide_rook pos rook_from rook_to =
     do {
       rook \<leftarrow> piece_at (board pos) rook_from;
       pos \<leftarrow> toggle_piece_hash pos rook rook_from;
       pos \<leftarrow> pos_remove_piece pos rook_from;
       pos \<leftarrow> pos_put_piece pos rook_to rook;
       toggle_piece_hash pos rook rook_to
     }"

definition unslide_rook :: "Position \<Rightarrow> Square \<Rightarrow> Square \<Rightarrow> Position option" where
  "unslide_rook pos rook_at rook_home =
     do {
       rook \<leftarrow> piece_at (board pos) rook_at;
       pos \<leftarrow> pos_remove_piece pos rook_at;
       pos_put_piece pos rook_home rook
     }"

definition make_move :: "Position \<Rightarrow> Move \<Rightarrow> Position option" where
  "make_move pos0 m =
     do {
       piece \<leftarrow> piece_at (board pos0) (from_sq m);
       let capture_sq = (if flag m = EnPassant
                         then make_square (file_of (to_sq m)) (rank_of (from_sq m))
                         else to_sq m);
       captured \<leftarrow> piece_at (board pos0) capture_sq;
       let pos = pos0\<lparr> history := history pos0 @
                   [\<lparr> undo_castling = castling pos0, undo_en_passant = en_passant pos0,
                      undo_halfmove_clock = halfmove_clock pos0, undo_captured = captured,
                      undo_key = key pos0 \<rparr>] \<rparr>;
       pos \<leftarrow> toggle_piece_hash pos piece (from_sq m);
       pos \<leftarrow> pos_remove_piece pos (from_sq m);
       pos \<leftarrow> (if captured \<noteq> kNoPiece
                then do { pos \<leftarrow> toggle_piece_hash pos captured capture_sq;
                          pos_remove_piece pos capture_sq }
                else Some pos);
       let placed = (if flag m = Promotion \<and> promotion m \<noteq> NoType
                     then Piece (color piece) (promotion m) else piece);
       pos \<leftarrow> pos_put_piece pos (to_sq m) placed;
       pos \<leftarrow> toggle_piece_hash pos placed (to_sq m);
       pos \<leftarrow> (if flag m = CastleKingside
                then slide_rook pos (make_square 7 (rank_of (from_sq m)))
                                    (make_square 5 (rank_of (from_sq m)))
                else if flag m = CastleQueenside
                then slide_rook pos (make_square 0 (rank_of (from_sq m)))
                                    (make_square 3 (rank_of (from_sq m)))
                else Some pos);
       pos \<leftarrow> (if flag m = DoublePawn
                then set_en_passant pos
                       (make_square (file_of (from_sq m))
                                    ((rank_of (from_sq m) + rank_of (to_sq m)) div 2))
                else set_en_passant pos kNoSquare);
       mask_from \<leftarrow> kCastleMask (from_sq m);
       mask_to \<leftarrow> kCastleMask (to_sq m);
       let pos = set_castling pos (castling pos AND mask_from AND mask_to);
       let pos = (if ptype piece = Pawn \<or> captured \<noteq> kNoPiece
                  then pos\<lparr> halfmove_clock := 0 \<rparr>
                  else pos\<lparr> halfmove_clock := halfmove_clock pos + 1 \<rparr>);
       let pos = (if side_to_move pos = Black
                  then pos\<lparr> fullmove_number := fullmove_number pos + 1 \<rparr> else pos);
       let pos = pos\<lparr> side_to_move := opposite (side_to_move pos) \<rparr>;
       let pos = toggle_side_hash pos;
       Some (pos\<lparr> key_history := key_history pos @ [key pos] \<rparr>)
     }"

definition unmake_move :: "Position \<Rightarrow> Move \<Rightarrow> Position option" where
  "unmake_move pos0 m =
     (if key_history pos0 = [] \<or> history pos0 = [] then None
      else do {
        let pos = pos0\<lparr> key_history := butlast (key_history pos0) \<rparr>;
        let undo = last (history pos);
        let pos = pos\<lparr> history := butlast (history pos) \<rparr>;
        let pos = pos\<lparr> side_to_move := opposite (side_to_move pos) \<rparr>;
        let pos = (if side_to_move pos = Black
                   then pos\<lparr> fullmove_number := fullmove_number pos - 1 \<rparr> else pos);
        placed \<leftarrow> piece_at (board pos) (to_sq m);
        let original = (if flag m = Promotion then Piece (color placed) Pawn else placed);
        pos \<leftarrow> pos_remove_piece pos (to_sq m);
        pos \<leftarrow> pos_put_piece pos (from_sq m) original;
        pos \<leftarrow> (if undo_captured undo \<noteq> kNoPiece
                 then (if flag m = EnPassant
                       then pos_put_piece pos
                              (make_square (file_of (to_sq m)) (rank_of (from_sq m)))
                              (undo_captured undo)
                       else pos_put_piece pos (to_sq m) (undo_captured undo))
                 else Some pos);
        pos \<leftarrow> (if flag m = CastleKingside
                 then unslide_rook pos (make_square 5 (rank_of (from_sq m)))
                                       (make_square 7 (rank_of (from_sq m)))
                 else if flag m = CastleQueenside
                 then unslide_rook pos (make_square 3 (rank_of (from_sq m)))
                                       (make_square 0 (rank_of (from_sq m)))
                 else Some pos);
        Some (pos\<lparr> castling := undo_castling undo, en_passant := undo_en_passant undo,
                     halfmove_clock := undo_halfmove_clock undo, key := undo_key undo \<rparr>)
      })"

section \<open>Sliding attacks (magic.cpp)\<close>

text \<open>
  The \<open>while\<close> loop of \<open>ray_attacks\<close>, from the file \<open>f\<close> and rank \<open>r\<close> on. It does not
  end for the direction (0, 0) on an empty ray, so it is a partial function: \<open>None\<close> is
  the loop that does not return.
\<close>

partial_function (option) ray_loop ::
  "Bitboard \<Rightarrow> int \<Rightarrow> int \<Rightarrow> int \<Rightarrow> int \<Rightarrow> Bitboard \<Rightarrow> Bitboard option" where
  "ray_loop occupancy df dr f r attacks =
     (if f \<ge> 0 \<and> f \<le> 7 \<and> r \<ge> 0 \<and> r \<le> 7
      then (if test_bit occupancy (make_square (nat f) (nat r))
            then Some (bb_set_bit attacks (make_square (nat f) (nat r)))
            else ray_loop occupancy df dr (f + df) (r + dr)
                   (bb_set_bit attacks (make_square (nat f) (nat r))))
      else Some attacks)"

declare ray_loop.simps [code]

definition ray_attacks :: "Square \<Rightarrow> Bitboard \<Rightarrow> int \<Rightarrow> int \<Rightarrow> Bitboard option" where
  "ray_attacks sq occupancy df dr =
     ray_loop occupancy df dr (int (file_of sq) + df) (int (rank_of sq) + dr) kEmptyBB"

definition bishop_attacks_slow :: "Square \<Rightarrow> Bitboard \<Rightarrow> Bitboard option" where
  "bishop_attacks_slow sq occupancy =
     do { a \<leftarrow> ray_attacks sq occupancy 1 1;
          b \<leftarrow> ray_attacks sq occupancy 1 (-1);
          c \<leftarrow> ray_attacks sq occupancy (-1) 1;
          d \<leftarrow> ray_attacks sq occupancy (-1) (-1);
          Some (a OR b OR c OR d) }"

definition rook_attacks_slow :: "Square \<Rightarrow> Bitboard \<Rightarrow> Bitboard option" where
  "rook_attacks_slow sq occupancy =
     do { a \<leftarrow> ray_attacks sq occupancy 1 0;
          b \<leftarrow> ray_attacks sq occupancy (-1) 0;
          c \<leftarrow> ray_attacks sq occupancy 0 1;
          d \<leftarrow> ray_attacks sq occupancy 0 (-1);
          Some (a OR b OR c OR d) }"

text \<open>The inner \<open>while\<close> loop of \<open>bishop_mask\<close> for one direction.\<close>

partial_function (option) mask_loop ::
  "int \<Rightarrow> int \<Rightarrow> int \<Rightarrow> int \<Rightarrow> Bitboard \<Rightarrow> Bitboard option" where
  "mask_loop df dr f r msk =
     (if f > 0 \<and> f < 7 \<and> r > 0 \<and> r < 7
      then mask_loop df dr (f + df) (r + dr) (bb_set_bit msk (make_square (nat f) (nat r)))
      else Some msk)"

declare mask_loop.simps [code]

definition bishop_mask :: "Square \<Rightarrow> Bitboard option" where
  "bishop_mask sq =
     (let f0 = int (file_of sq); r0 = int (rank_of sq) in
      do { msk \<leftarrow> mask_loop 1 1 (f0 + 1) (r0 + 1) kEmptyBB;
           msk \<leftarrow> mask_loop 1 (-1) (f0 + 1) (r0 - 1) msk;
           msk \<leftarrow> mask_loop (-1) 1 (f0 - 1) (r0 + 1) msk;
           mask_loop (-1) (-1) (f0 - 1) (r0 - 1) msk })"

text \<open>The four \<open>for\<close> loops of \<open>rook_mask\<close>, each over its range of files or ranks.\<close>

definition rook_mask :: "Square \<Rightarrow> Bitboard" where
  "rook_mask sq =
     (let f0 = file_of sq; r0 = rank_of sq;
          msk = fold (\<lambda>f m. bb_set_bit m (make_square f r0)) [f0 + 1 ..< 7] kEmptyBB;
          msk = fold (\<lambda>f m. bb_set_bit m (make_square f r0)) (rev [1 ..< f0]) msk;
          msk = fold (\<lambda>r m. bb_set_bit m (make_square f0 r)) [r0 + 1 ..< 7] msk
      in fold (\<lambda>r m. bb_set_bit m (make_square f0 r)) (rev [1 ..< r0]) msk)"

text \<open>
  The lookups \<open>magic::bishop_attacks\<close> and \<open>magic::rook_attacks\<close> read
  \<open>table[offset + (((occupancy & mask) * magic) >> shift)]\<close>. After \<open>init\<close>, that entry
  is the ray-traced attack set that \<open>enumerate_subsets\<close> computed for the subset
  \<open>occupancy & mask\<close> of the square's mask: \<open>init_piece\<close> stores \<open>atks[i]\<close> at the index
  of \<open>occs[i]\<close>, and \<open>find_magic\<close> returns a multiplier only after checking that two
  subsets share an index only when they share the attack set. The tables have entries
  for the squares 0..63 only.
\<close>

definition bishop_attacks :: "Square \<Rightarrow> Bitboard \<Rightarrow> Bitboard option" where
  "bishop_attacks sq occupancy =
     (if sq \<ge> 64 then None
      else do { msk \<leftarrow> bishop_mask sq; bishop_attacks_slow sq (occupancy AND msk) })"

definition rook_attacks :: "Square \<Rightarrow> Bitboard \<Rightarrow> Bitboard option" where
  "rook_attacks sq occupancy =
     (if sq \<ge> 64 then None else rook_attacks_slow sq (occupancy AND rook_mask sq))"

definition queen_attacks :: "Square \<Rightarrow> Bitboard \<Rightarrow> Bitboard option" where
  "queen_attacks sq occupancy =
     do { b \<leftarrow> bishop_attacks sq occupancy; r \<leftarrow> rook_attacks sq occupancy; Some (b OR r) }"

section \<open>Attack queries (position.cpp)\<close>

definition is_square_attacked :: "Position \<Rightarrow> Square \<Rightarrow> Color \<Rightarrow> bool option" where
  "is_square_attacked pos sq by =
     (if sq \<ge> 64 then None
      else let occ = occupied_all (board pos) in
        if pawn_attacks (opposite by) sq AND pieces (board pos) by Pawn \<noteq> 0 then Some True
        else if knight_attacks sq AND pieces (board pos) by Knight \<noteq> 0 then Some True
        else if king_attacks sq AND pieces (board pos) by King \<noteq> 0 then Some True
        else do {
          ba \<leftarrow> bishop_attacks sq occ;
          if ba AND (pieces (board pos) by Bishop OR pieces (board pos) by Queen) \<noteq> 0
          then Some True
          else do {
            ra \<leftarrow> rook_attacks sq occ;
            if ra AND (pieces (board pos) by Rook OR pieces (board pos) by Queen) \<noteq> 0
            then Some True
            else Some False
          }
        })"

definition is_in_check :: "Position \<Rightarrow> Color \<Rightarrow> bool option" where
  "is_in_check pos c = is_square_attacked pos (king_square (board pos) c) (opposite c)"

definition repetition_count :: "Position \<Rightarrow> int" where
  "repetition_count pos = int (length (filter (\<lambda>k. k = key pos) (key_history pos)))"

section \<open>Move generation (movegen.cpp)\<close>

definition kPromotions :: "PieceType list" where
  "kPromotions = [Queen, Rook, Bishop, Knight]"

definition add_promotions :: "Square \<Rightarrow> Square \<Rightarrow> Move list" where
  "add_promotions from to = map (\<lambda>pt. Move from to Promotion pt) kPromotions"

text \<open>
  Each generator returns the moves it pushes, in the order of the pushes; the list of
  \<open>pseudo_legal\<close> is their concatenation. \<open>from_of us to d\<^sub>w d\<^sub>b\<close> is
  \<open>static_cast<Square>((us == Color::White) ? to - d\<^sub>w : to + d\<^sub>b)\<close>.
\<close>

definition from_of :: "Color \<Rightarrow> Square \<Rightarrow> int \<Rightarrow> int \<Rightarrow> Square" where
  "from_of us to dw db = to_Square (if us = White then int to - dw else int to + db)"

definition gen_pawn_moves :: "Position \<Rightarrow> Move list option" where
  "gen_pawn_moves pos =
     (let us = side_to_move pos;
          them = opposite us;
          pawns = pieces (board pos) us Pawn;
          empty = NOT (occupied_all (board pos));
          enemy = occupied (board pos) them;
          promo_rank = (if us = White then kRank8 else kRank1);
          single = (if us = White then shift_north pawns AND empty
                    else shift_south pawns AND empty);
          np = single AND NOT promo_rank;
          pushes = map (\<lambda>to. Move (from_of us to 8 8) to Normal NoType) (bb_squares np);
          pp = single AND promo_rank;
          promo_pushes = concat (map (\<lambda>to. add_promotions (from_of us to 8 8) to) (bb_squares pp));
          mid_rank = (if us = White then kRank3 else kRank6);
          dbl = (if us = White then shift_north (single AND mid_rank) AND empty
                 else shift_south (single AND mid_rank) AND empty);
          doubles = map (\<lambda>to. Move (from_of us to 16 16) to DoublePawn NoType) (bb_squares dbl);
          cap_l = (if us = White then shift_nw pawns else shift_sw pawns) AND enemy;
          nc_l = cap_l AND NOT promo_rank;
          left = map (\<lambda>to. Move (from_of us to 7 9) to Normal NoType) (bb_squares nc_l);
          pc_l = cap_l AND promo_rank;
          left_promo = concat (map (\<lambda>to. add_promotions (from_of us to 7 9) to) (bb_squares pc_l));
          cap_r = (if us = White then shift_ne pawns else shift_se pawns) AND enemy;
          nc_r = cap_r AND NOT promo_rank;
          right = map (\<lambda>to. Move (from_of us to 9 7) to Normal NoType) (bb_squares nc_r);
          pc_r = cap_r AND promo_rank;
          right_promo = concat (map (\<lambda>to. add_promotions (from_of us to 9 7) to) (bb_squares pc_r))
      in do {
        ep_moves \<leftarrow>
          (if en_passant pos \<noteq> kNoSquare
           then (if en_passant pos \<ge> 64 then None
                 else Some (map (\<lambda>from. Move from (en_passant pos) EnPassant NoType)
                              (bb_squares (pawn_attacks them (en_passant pos) AND pawns))))
           else Some []);
        Some (pushes @ promo_pushes @ doubles @ left @ left_promo @ right @ right_promo @ ep_moves)
      })"

text \<open>The \<open>switch (pt)\<close> of \<open>gen_piece_moves\<close>.\<close>

definition attacks_from :: "PieceType \<Rightarrow> Square \<Rightarrow> Bitboard \<Rightarrow> Bitboard option" where
  "attacks_from pt from occ =
     (case pt of
        Knight \<Rightarrow> Some (knight_attacks from)
      | Bishop \<Rightarrow> bishop_attacks from occ
      | Rook \<Rightarrow> rook_attacks from occ
      | Queen \<Rightarrow> queen_attacks from occ
      | King \<Rightarrow> Some (king_attacks from)
      | _ \<Rightarrow> Some kEmptyBB)"

definition gen_piece_moves :: "Position \<Rightarrow> PieceType \<Rightarrow> Move list option" where
  "gen_piece_moves pos pt =
     (let us = side_to_move pos;
          friendly = occupied (board pos) us;
          occ = occupied_all (board pos)
      in map_option concat (those (map
           (\<lambda>from. do {
              attacks \<leftarrow> attacks_from pt from occ;
              Some (map (\<lambda>to. Move from to Normal NoType) (bb_squares (attacks AND NOT friendly)))
            })
           (bb_squares (pieces (board pos) us pt)))))"

text \<open>\<open>a && b\<close> on results that may be undefined: \<open>b\<close> is evaluated only when \<open>a\<close> holds.\<close>

definition and_also :: "bool option \<Rightarrow> bool option \<Rightarrow> bool option" where
  "and_also a b = (case a of None \<Rightarrow> None | Some False \<Rightarrow> Some False | Some True \<Rightarrow> b)"

definition gen_castling :: "Position \<Rightarrow> Move list option" where
  "gen_castling pos =
     (let us = side_to_move pos;
          them = opposite us;
          king_sq = king_square (board pos) us;
          rank = (if us = White then 0 else 7)
      in do {
        in_check \<leftarrow> is_square_attacked pos king_sq them;
        if in_check then Some []
        else do {
          let ks = (if us = White then kWhiteKingside else kBlackKingside);
          kingside \<leftarrow>
            (if castling pos AND ks \<noteq> 0
             then do {
               let f_sq = make_square 5 rank;
               let g_sq = make_square 6 rank;
               ok \<leftarrow> and_also (is_empty (board pos) f_sq)
                      (and_also (is_empty (board pos) g_sq)
                        (and_also (map_option Not (is_square_attacked pos f_sq them))
                                  (map_option Not (is_square_attacked pos g_sq them))));
               Some (if ok then [Move king_sq g_sq CastleKingside NoType] else [])
             }
             else Some []);
          let qs = (if us = White then kWhiteQueenside else kBlackQueenside);
          queenside \<leftarrow>
            (if castling pos AND qs \<noteq> 0
             then do {
               let b_sq = make_square 1 rank;
               let c_sq = make_square 2 rank;
               let d_sq = make_square 3 rank;
               ok \<leftarrow> and_also (is_empty (board pos) b_sq)
                      (and_also (is_empty (board pos) c_sq)
                        (and_also (is_empty (board pos) d_sq)
                          (and_also (map_option Not (is_square_attacked pos c_sq them))
                                    (map_option Not (is_square_attacked pos d_sq them)))));
               Some (if ok then [Move king_sq c_sq CastleQueenside NoType] else [])
             }
             else Some []);
          Some (kingside @ queenside)
        }
      })"

text \<open>
  \<open>MoveList\<close> has room for \<open>kMaxMoves\<close> = 256 moves and \<open>push\<close> does not check it: a
  longer list writes outside the array.
\<close>

definition kMaxMoves :: nat where
  "kMaxMoves = 256"

definition pseudo_legal :: "Position \<Rightarrow> Move list option" where
  "pseudo_legal pos =
     do {
       pawn \<leftarrow> gen_pawn_moves pos;
       knight \<leftarrow> gen_piece_moves pos Knight;
       bishop \<leftarrow> gen_piece_moves pos Bishop;
       rook \<leftarrow> gen_piece_moves pos Rook;
       queen \<leftarrow> gen_piece_moves pos Queen;
       king \<leftarrow> gen_piece_moves pos King;
       castle \<leftarrow> gen_castling pos;
       let ml = pawn @ knight @ bishop @ rook @ queen @ king @ castle;
       if length ml > kMaxMoves then None else Some ml
     }"

text \<open>
  The loop of \<open>legal\<close> over the pseudo-legal moves. The position is passed by reference
  and is made and unmade in place, so the loop carries it and returns it beside the list.
\<close>

fun legal_loop ::
  "Move list \<Rightarrow> Color \<Rightarrow> Position \<Rightarrow> Move list \<Rightarrow> (Move list \<times> Position) option" where
  "legal_loop [] us pos result = Some (result, pos)"
| "legal_loop (m # ms) us pos result =
     do {
       pos \<leftarrow> make_move pos m;
       chk \<leftarrow> is_in_check pos us;
       let result = (if \<not> chk then result @ [m] else result);
       pos \<leftarrow> unmake_move pos m;
       legal_loop ms us pos result
     }"

definition legal :: "Position \<Rightarrow> (Move list \<times> Position) option" where
  "legal pos = do { pseudo \<leftarrow> pseudo_legal pos; legal_loop pseudo (side_to_move pos) pos [] }"

section \<open>Parsing a position descriptor (position.cpp)\<close>

text \<open>
  \<open>std::invalid_argument\<close> with its message is \<open>InvalidArgument\<close>; an access outside an
  array is \<open>OutOfBounds\<close>.
\<close>

datatype error = InvalidArgument string | OutOfBounds

definition sum_bind :: "error + 'a \<Rightarrow> ('a \<Rightarrow> error + 'b) \<Rightarrow> error + 'b" where
  "sum_bind x f = (case x of Inl e \<Rightarrow> Inl e | Inr v \<Rightarrow> f v)"

function split_spaces :: "string \<Rightarrow> string list" where
  "split_spaces sv =
     (let rest = dropWhile (\<lambda>c. c = CHR '' '') sv in
      if rest = [] then []
      else takeWhile (\<lambda>c. c \<noteq> CHR '' '') rest # split_spaces (dropWhile (\<lambda>c. c \<noteq> CHR '' '') rest))"
  by pat_completeness auto
termination
proof (relation "measure length")
  show "wf (measure length)" by simp
next
  fix sv rest :: string
  assume r: "rest = dropWhile (\<lambda>c. c = CHR '' '') sv" and ne: "rest \<noteq> []"
  from ne obtain c cs where rc: "rest = c # cs" by (cases rest) auto
  have "\<not> (\<lambda>c. c = CHR '' '') (hd (dropWhile (\<lambda>c. c = CHR '' '') sv))"
    by (rule hd_dropWhile) (use r ne in simp)
  then have "c \<noteq> CHR '' ''" using r rc by (metis list.sel(1))
  then have "length (dropWhile (\<lambda>c. c \<noteq> CHR '' '') rest) \<le> length cs"
    using rc by (simp add: length_dropWhile_le)
  moreover have "length rest \<le> length sv" using r by (simp add: length_dropWhile_le)
  ultimately show "(dropWhile (\<lambda>c. c \<noteq> CHR '' '') rest, sv) \<in> measure length"
    using rc by simp
qed

declare split_spaces.simps [simp del]

text \<open>
  \<open>std::from_chars\<close> for \<open>int\<close> in base 10 accepts an optional minus sign followed by
  digits, and reports an error when there is no digit or when the value does not fit an
  \<open>int\<close>; \<open>parse_int\<close> also rejects any character left after the digits.
\<close>

definition is_digit :: "char \<Rightarrow> bool" where
  "is_digit c \<longleftrightarrow> 48 \<le> char_code c \<and> char_code c \<le> 57"

definition dec_value :: "string \<Rightarrow> int" where
  "dec_value ds = foldl (\<lambda>acc c. acc * 10 + (char_code c - 48)) 0 ds"

definition parse_int :: "string \<Rightarrow> int \<Rightarrow> error + int" where
  "parse_int sv min_val =
     (let neg = (sv \<noteq> [] \<and> hd sv = CHR ''-'');
          ds = (if neg then tl sv else sv)
      in if ds = [] \<or> \<not> list_all is_digit ds
         then Inl (InvalidArgument (''Invalid integer in FEN: '' @ sv))
         else let val = (if neg then - dec_value ds else dec_value ds) in
           if val < - 2147483648 \<or> val > 2147483647
           then Inl (InvalidArgument (''Invalid integer in FEN: '' @ sv))
           else if val < min_val
           then Inl (InvalidArgument (''Integer out of range in FEN: '' @ sv))
           else Inr val)"

text \<open>The loop of \<open>from_fen\<close> over the characters of the placement field.\<close>

fun placement_loop ::
  "string \<Rightarrow> string \<Rightarrow> int \<Rightarrow> int \<Rightarrow> Board \<Rightarrow> error + (int \<times> int \<times> Board)" where
  "placement_loop fen [] rank file b = Inr (rank, file, b)"
| "placement_loop fen (ch # rest) rank file b =
     (if ch = CHR ''/''
      then (if file \<noteq> 8 then Inl (InvalidArgument (''Invalid FEN rank width: '' @ fen))
            else if rank - 1 < 0 then Inl (InvalidArgument (''Too many ranks in FEN: '' @ fen))
            else placement_loop fen rest (rank - 1) 0 b)
      else if char_code ch \<ge> 49 \<and> char_code ch \<le> 56
      then (if file + (char_code ch - 48) > 8
            then Inl (InvalidArgument (''Invalid FEN rank width: '' @ fen))
            else placement_loop fen rest rank (file + (char_code ch - 48)) b)
      else (if file \<ge> 8 then Inl (InvalidArgument (''Invalid FEN rank width: '' @ fen))
            else if ptype (from_fen_char ch) = NoType
            then Inl (InvalidArgument (''Invalid FEN piece char: '' @ [ch]))
            else (case put_piece b (make_square (nat file) (nat rank)) (from_fen_char ch) of
                    None \<Rightarrow> Inl OutOfBounds
                  | Some b' \<Rightarrow> placement_loop fen rest rank (file + 1) b')))"

text \<open>The loop over the characters of the castling field.\<close>

fun castling_loop :: "string \<Rightarrow> CastlingRights \<Rightarrow> error + CastlingRights" where
  "castling_loop [] cr = Inr cr"
| "castling_loop (ch # rest) cr =
     (if ch = CHR ''K'' then castling_loop rest (cr OR kWhiteKingside)
      else if ch = CHR ''Q'' then castling_loop rest (cr OR kWhiteQueenside)
      else if ch = CHR ''k'' then castling_loop rest (cr OR kBlackKingside)
      else if ch = CHR ''q'' then castling_loop rest (cr OR kBlackQueenside)
      else Inl (InvalidArgument (''Invalid castling char in FEN: '' @ [ch])))"

definition from_fen :: "string \<Rightarrow> error + Position" where
  "from_fen fen =
     (let parts = split_spaces fen in
      if length parts < 4 \<or> length parts > 6
      then Inl (InvalidArgument (''Invalid FEN (need 4-6 fields): '' @ fen))
      else
        sum_bind (placement_loop fen (parts ! 0) 7 0 empty_board) (\<lambda>(rank, file, b).
        if rank \<noteq> 0 \<or> file \<noteq> 8
        then Inl (InvalidArgument (''Invalid FEN board placement: '' @ fen))
        else
        sum_bind (if parts ! 1 = ''w'' then Inr White
                  else if parts ! 1 = ''b'' then Inr Black
                  else Inl (InvalidArgument (''Invalid FEN side-to-move: '' @ parts ! 1))) (\<lambda>side.
        sum_bind (if parts ! 2 \<noteq> ''-'' then castling_loop (parts ! 2) kCastlingNone
                  else Inr kCastlingNone) (\<lambda>cr.
        sum_bind (if parts ! 3 \<noteq> ''-''
                  then (if parse_square (parts ! 3) = kNoSquare
                        then Inl (InvalidArgument
                                    (''Invalid FEN en-passant square: '' @ parts ! 3))
                        else Inr (parse_square (parts ! 3)))
                  else Inr kNoSquare) (\<lambda>ep.
        sum_bind (if length parts > 4 then parse_int (parts ! 4) 0 else Inr 0) (\<lambda>halfmove.
        sum_bind (if length parts > 5 then parse_int (parts ! 5) 1 else Inr 1) (\<lambda>fullmove.
        (case new_Position b side cr ep halfmove fullmove of
           None \<Rightarrow> Inl OutOfBounds
         | Some pos \<Rightarrow> Inr pos))))))))"

definition kStartingFen :: string where
  "kStartingFen = ''rnbqkbnr/pppppppp/8/8/8/8/PPPPPPPP/RNBQKBNR w KQkq - 0 1''"

definition initial :: "error + Position" where
  "initial = from_fen kStartingFen"

section \<open>Search (search.hpp, search.cpp)\<close>

definition kInfScore :: int where "kInfScore = 1000000"
definition kMateScore :: int where "kMateScore = 100000"
definition kMaxPly :: int where "kMaxPly = 128"
definition kTimeCheckInterval :: nat where "kTimeCheckInterval = 4096"

record SearchLimits =
  max_depth :: int
  time_limit_ms :: int

record SearchResult =
  res_best_move :: Move
  score_cp :: int
  res_depth :: int
  res_nodes :: nat

text \<open>
  The state of a \<open>Search\<close> object. The atomic flag \<open>cancelled_\<close> is written by other
  threads and the clock advances by itself, so neither is a field: what the search
  observes of them is given by an environment, which says what the \<open>k\<close>-th load of the
  flag and the \<open>k\<close>-th reading of the clock (in milliseconds) return. The state counts
  the loads and the readings made so far.
\<close>

record Env =
  flag_load :: "nat \<Rightarrow> bool"
  clock_now :: "nat \<Rightarrow> int"

record Search =
  tt :: TranspositionTable
  killers :: "int \<Rightarrow> nat \<Rightarrow> Move"
  history_table :: "Color \<Rightarrow> Square \<Rightarrow> Square \<Rightarrow> int"
  deadline :: int
  has_deadline :: bool
  nodes :: nat
  flag_loads :: nat
  clock_reads :: nat

definition reset_heuristics :: "Search \<Rightarrow> Search" where
  "reset_heuristics s = s\<lparr> killers := (\<lambda>ply k. kNullMove), history_table := (\<lambda>c f t. 0) \<rparr>"

definition new_search :: "TranspositionTable \<Rightarrow> TranspositionTable" where
  "new_search t = t\<lparr> tt_age := tt_age t + 1 \<rparr>"

definition should_stop :: "Env \<Rightarrow> Search \<Rightarrow> bool \<times> Search" where
  "should_stop env s =
     (let cancelled = flag_load env (flag_loads s);
          s = s\<lparr> flag_loads := flag_loads s + 1 \<rparr>
      in if cancelled then (True, s)
         else if has_deadline s \<and> nodes s mod kTimeCheckInterval = 0
         then (clock_now env (clock_reads s) \<ge> deadline s, s\<lparr> clock_reads := clock_reads s + 1 \<rparr>)
         else (False, s))"

text \<open>The third part of \<open>Search::is_draw\<close>: insufficient material.\<close>

definition kLightSquares :: Bitboard where
  "kLightSquares = 0x55AA55AA55AA55AA"

definition insufficient_material :: "Position \<Rightarrow> bool" where
  "insufficient_material pos =
     (let b = board pos;
          total_pieces = popcount (occupied_all b)
      in if total_pieces = 2 then True
         else if total_pieces = 3 \<and>
                 (pieces b White Knight \<noteq> 0 \<or> pieces b White Bishop \<noteq> 0 \<or>
                  pieces b Black Knight \<noteq> 0 \<or> pieces b Black Bishop \<noteq> 0)
         then True
         else if total_pieces = 4 \<and> pieces b White Bishop \<noteq> 0 \<and> pieces b Black Bishop \<noteq> 0
                 \<and> ((pieces b White Bishop AND kLightSquares \<noteq> 0)
                      = (pieces b Black Bishop AND kLightSquares \<noteq> 0))
         then True
         else False)"

definition is_draw :: "Position \<Rightarrow> bool" where
  "is_draw pos =
     (if halfmove_clock pos \<ge> 100 then True
      else if repetition_count pos \<ge> 2 then True
      else insufficient_material pos)"

text \<open>\<open>kMvvValues\<close>, indexed by \<open>piece_index\<close>; every read is guarded by a test that the
  type is not \<open>None\<close>.\<close>

fun kMvvValues :: "PieceType \<Rightarrow> int" where
  "kMvvValues Pawn = 100"
| "kMvvValues Knight = 320"
| "kMvvValues Bishop = 330"
| "kMvvValues Rook = 500"
| "kMvvValues Queen = 900"
| "kMvvValues King = 0"
| "kMvvValues NoType = 0"

definition kKillerPrimaryBonus :: int where "kKillerPrimaryBonus = 9000"
definition kKillerSecondaryBonus :: int where "kKillerSecondaryBonus = 8000"

definition move_score :: "Search \<Rightarrow> Position \<Rightarrow> Move \<Rightarrow> Move \<Rightarrow> int \<Rightarrow> int option" where
  "move_score s pos m tt_move ply =
     (if \<not> is_null tt_move \<and> m = tt_move then Some 100000
      else do {
        moving \<leftarrow> piece_at (board pos) (from_sq m);
        target \<leftarrow> piece_at (board pos) (to_sq m);
        let score = (if flag m = Promotion \<and> promotion m \<noteq> NoType
                     then 20000 + kMvvValues (promotion m) else 0);
        let score =
          (if ptype target \<noteq> NoType
           then score + 10000 + 10 * kMvvValues (ptype target)
                  - (if ptype moving \<noteq> NoType then kMvvValues (ptype moving) else 0)
           else if flag m = EnPassant
           then score + 10000 + 10 * kMvvValues Pawn - kMvvValues Pawn
           else score
                + (if ply < kMaxPly
                   then (if killers s ply 0 = m then kKillerPrimaryBonus
                         else if killers s ply 1 = m then kKillerSecondaryBonus else 0)
                   else 0)
                + (if ptype moving \<noteq> NoType
                   then history_table s (side_to_move pos) (from_sq m) (to_sq m) else 0));
        Some (if flag m = CastleKingside \<or> flag m = CastleQueenside then score + 120 else score)
      })"

text \<open>
  \<open>order_moves\<close> is a selection sort on the scores. \<open>move_score\<close> is a pure function of
  the move, so the model computes each score once and carries it beside its move.
  \<open>find_best\<close> is the inner loop over \<open>j\<close>, \<open>order_loop\<close> the outer loop over \<open>i\<close>.
\<close>

fun find_best :: "int list \<Rightarrow> nat \<Rightarrow> nat \<Rightarrow> int \<Rightarrow> nat" where
  "find_best [] j best_idx best_score = best_idx"
| "find_best (sc # rest) j best_idx best_score =
     (if sc > best_score then find_best rest (j + 1) j sc
      else find_best rest (j + 1) best_idx best_score)"

function order_loop :: "nat \<Rightarrow> (Move \<times> int) list \<Rightarrow> (Move \<times> int) list" where
  "order_loop i ml =
     (if i < length ml
      then (let best_idx = find_best (map snd (drop (i + 1) ml)) (i + 1) i (snd (ml ! i))
            in order_loop (i + 1)
                 (if best_idx \<noteq> i then ml[i := ml ! best_idx, best_idx := ml ! i] else ml))
      else ml)"
  by pat_completeness auto
termination
  by (relation "measure (\<lambda>(i, ml). length ml - i)") auto

declare order_loop.simps [simp del]

definition order_moves ::
  "Search \<Rightarrow> Position \<Rightarrow> Move list \<Rightarrow> Move \<Rightarrow> int \<Rightarrow> Move list option" where
  "order_moves s pos ml tt_move ply =
     do {
       scored \<leftarrow> those (map (\<lambda>m. map_option (Pair m) (move_score s pos m tt_move ply)) ml);
       Some (map fst (order_loop 0 scored))
     }"

text \<open>
  \<open>negamax\<close> calls \<open>eval::evaluate\<close> and \<open>Position::make_null_move\<close>, which are not part
  of the sources at hand, so the root search takes it as a parameter: a function of the
  environment, the search state, the position, \<open>depth\<close>, \<open>alpha\<close>, \<open>beta\<close>, \<open>ply\<close> and
  \<open>allow_null\<close> that returns the score with the new state and position, or \<open>None\<close> when
  it does not return.
\<close>

type_synonym Negamax =
  "Env \<Rightarrow> Search \<Rightarrow> Position \<Rightarrow> int \<Rightarrow> int \<Rightarrow> int \<Rightarrow> int \<Rightarrow> bool \<Rightarrow> (int \<times> Search \<times> Position) option"

text \<open>
  The loop over the root moves inside one iteration; its state is the search state, the
  position, \<open>score\<close>, \<open>iter_best\<close> and \<open>alpha\<close>.
\<close>

fun root_loop ::
  "Negamax \<Rightarrow> Env \<Rightarrow> int \<Rightarrow> int \<Rightarrow> Move list \<Rightarrow> Search \<times> Position \<times> int \<times> Move \<times> int
     \<Rightarrow> (Search \<times> Position \<times> int \<times> Move \<times> int) option" where
  "root_loop negamax env cur_depth beta [] st = Some st"
| "root_loop negamax env cur_depth beta (m # ms) (s, pos, iter_score, iter_best, alpha) =
     (let (stop, s) = should_stop env s in
      if stop then Some (s, pos, iter_score, iter_best, alpha)
      else do {
        pos \<leftarrow> make_move pos m;
        (v, s, pos) \<leftarrow> negamax env s pos (cur_depth - 1) (- beta) (- alpha) 1 True;
        pos \<leftarrow> unmake_move pos m;
        let sc = - v;
        let (iter_score, iter_best) = (if sc > iter_score then (sc, m) else (iter_score, iter_best));
        let alpha = (if sc > alpha then sc else alpha);
        root_loop negamax env cur_depth beta ms (s, pos, iter_score, iter_best, alpha)
      })"

text \<open>Moving the best move to the front of the root list, the others keeping their order.\<close>

definition move_to_front :: "Move \<Rightarrow> Move list \<Rightarrow> Move list" where
  "move_to_front bm ml = (if bm \<in> set ml then bm # remove1 bm ml else ml)"

text \<open>
  The iterative-deepening loop \<open>for (depth = 1; depth <= limits.max_depth; ++depth)\<close>; its
  state is the search state, the position, the root list, \<open>best_move\<close>, \<open>best_score\<close> and
  \<open>completed_depth\<close>.
\<close>

function deepening_loop ::
  "Negamax \<Rightarrow> Env \<Rightarrow> SearchLimits \<Rightarrow> int
     \<Rightarrow> Search \<times> Position \<times> Move list \<times> Move \<times> int \<times> int
     \<Rightarrow> (Search \<times> Position \<times> Move list \<times> Move \<times> int \<times> int) option" where
  "deepening_loop negamax env limits cur_depth (s, pos, root_moves, cur_best, best_score, completed_depth) =
     (if cur_depth \<le> max_depth limits
      then (let (stop, s) = should_stop env s in
            if stop then Some (s, pos, root_moves, cur_best, best_score, completed_depth)
            else
              (case root_loop negamax env cur_depth kInfScore root_moves
                      (s, pos, - kInfScore, kNullMove, - kInfScore) of
                 None \<Rightarrow> None
               | Some (s, pos, iter_score, iter_best, alpha) \<Rightarrow>
                   (let (stop, s) = should_stop env s in
                    if stop then Some (s, pos, root_moves, cur_best, best_score, completed_depth)
                    else if is_null iter_best
                    then Some (s, pos, root_moves, cur_best, best_score, completed_depth)
                    else deepening_loop negamax env limits (cur_depth + 1)
                           (s, pos, move_to_front iter_best root_moves, iter_best, iter_score, cur_depth))))
      else Some (s, pos, root_moves, cur_best, best_score, completed_depth))"
  by pat_completeness auto
termination
  by (relation "measure (\<lambda>(negamax, env, limits, cur_depth, st). nat (max_depth limits + 1 - cur_depth))") auto

declare deepening_loop.simps [simp del]

definition search ::
  "Negamax \<Rightarrow> Env \<Rightarrow> Search \<Rightarrow> Position \<Rightarrow> SearchLimits
     \<Rightarrow> (SearchResult \<times> Search \<times> Position) option" where
  "search negamax env s0 pos0 limits =
     (let s = s0\<lparr> nodes := 0 \<rparr>;
          s = reset_heuristics s;
          s = s\<lparr> tt := new_search (tt s) \<rparr>;
          s = s\<lparr> has_deadline := (time_limit_ms limits > 0) \<rparr>;
          s = (if has_deadline s
               then s\<lparr> deadline := clock_now env (clock_reads s) + time_limit_ms limits,
                         clock_reads := clock_reads s + 1 \<rparr>
               else s)
      in do {
        (root_moves, pos) \<leftarrow> legal pos0;
        if root_moves = []
        then do {
          chk \<leftarrow> is_in_check pos (side_to_move pos);
          Some (if chk
                then (\<lparr> res_best_move = kNullMove, score_cp = - kMateScore, res_depth = 0,
                         res_nodes = nodes s \<rparr>, s, pos)
                else (\<lparr> res_best_move = kNullMove, score_cp = 0, res_depth = 0,
                         res_nodes = nodes s \<rparr>, s, pos))
        }
        else do {
          root_moves \<leftarrow> order_moves s pos root_moves kNullMove 0;
          (s, pos, root_moves, best_move, best_score, completed_depth) \<leftarrow>
            deepening_loop negamax env limits 1
              (s, pos, root_moves, root_moves ! 0, - kInfScore, 0);
          Some (\<lparr> res_best_move = best_move, score_cp = best_score,
                   res_depth = completed_depth, res_nodes = nodes s \<rparr>, s, pos)
        }
      })"

text \<open>
  The move descriptor handed to the caller (pybind_module.cpp): the empty string for the
  null move, the UCI text otherwise.
\<close>

definition move_descriptor :: "Move \<Rightarrow> string" where
  "move_descriptor m = (if is_null m then [] else uci m)"

section \<open>Vocabulary of the properties and example inputs\<close>

text \<open>A two-character string that names a board square: a file letter and a rank digit.\<close>

definition names_square :: "string \<Rightarrow> bool" where
  "names_square s \<longleftrightarrow> length s = 2 \<and> s ! 0 \<in> set ''abcdefgh'' \<and> s ! 1 \<in> set ''12345678''"

text \<open>A table of four empty entries, and one whose entry 2 holds a search result.\<close>

definition empty_entry :: TTEntry where
  "empty_entry = \<lparr> key32 = 0, score = 0, static_eval = 0, best_move = kNullMove, depth = 0,
                    bound = NoBound, age = 0, padding = 0 \<rparr>"

definition tt_example :: TranspositionTable where
  "tt_example = \<lparr> tt_table = replicate 4 empty_entry, tt_mask = 3, tt_age = 0 \<rparr>"

definition tt_example_full :: TranspositionTable where
  "tt_example_full =
     \<lparr> tt_table = (replicate 4 empty_entry)
         [2 := \<lparr> key32 = 0x99998888, score = 100, static_eval = 50,
                 best_move = Move 12 28 DoublePawn NoType, depth = 5, bound = Exact, age = 0,
                 padding = 0 \<rparr>],
       tt_mask = 3, tt_age = 0 \<rparr>"

subsection \<open>Boards\<close>

text \<open>
  \<open>place\<close> and \<open>lift\<close> are what \<open>put_piece\<close> and \<open>remove_piece\<close> return when they are
  defined.
\<close>

definition place :: "Board \<Rightarrow> Square \<Rightarrow> Piece \<Rightarrow> Board" where
  "place b sq p =
     b\<lparr> pieces := (pieces b)(color p := (pieces b (color p))
                      (ptype p := bb_set_bit (pieces b (color p) (ptype p)) sq)),
        occupied := (occupied b)(color p := bb_set_bit (occupied b (color p)) sq),
        occupied_all := bb_set_bit (occupied_all b) sq,
        mailbox := (mailbox b)(sq := p) \<rparr>"

definition lift :: "Board \<Rightarrow> Square \<Rightarrow> Board" where
  "lift b sq =
     b\<lparr> pieces := (pieces b)(color (mailbox b sq) := (pieces b (color (mailbox b sq)))
                      (ptype (mailbox b sq) :=
                         clear_bit (pieces b (color (mailbox b sq)) (ptype (mailbox b sq))) sq)),
        occupied := (occupied b)(color (mailbox b sq) :=
                         clear_bit (occupied b (color (mailbox b sq))) sq),
        occupied_all := clear_bit (occupied_all b) sq,
        mailbox := (mailbox b)(sq := kNoPiece) \<rparr>"

text \<open>
  A board is coherent when its bitboards and its mailbox describe the same pieces: bit \<open>sq\<close>
  of a piece bitboard is set exactly when the mailbox holds that piece on \<open>sq\<close>, the
  occupancies are the unions of the piece bitboards, and empty mailbox slots hold \<open>kNoPiece\<close>.
\<close>

definition board_ok :: "Board \<Rightarrow> bool" where
  "board_ok b \<longleftrightarrow>
     (\<forall>sq c t. t \<noteq> NoType \<longrightarrow> (bit (pieces b c t) sq \<longleftrightarrow> sq < 64 \<and> mailbox b sq = Piece c t))
   \<and> (\<forall>sq c. bit (occupied b c) sq \<longleftrightarrow>
          sq < 64 \<and> ptype (mailbox b sq) \<noteq> NoType \<and> color (mailbox b sq) = c)
   \<and> (\<forall>sq. bit (occupied_all b) sq \<longleftrightarrow> sq < 64 \<and> ptype (mailbox b sq) \<noteq> NoType)
   \<and> (\<forall>sq. ptype (mailbox b sq) = NoType \<longrightarrow> mailbox b sq = kNoPiece)
   \<and> (\<forall>c. pieces b c NoType = 0)"

subsection \<open>Hash contributions\<close>

text \<open>
  The key of a piece on a square and of an en-passant square, as total functions: an empty
  square and the absence of an en-passant square contribute nothing.
\<close>

definition piece_hash :: "Piece \<Rightarrow> Square \<Rightarrow> 64 word" where
  "piece_hash p sq = (case piece_key (color p) (ptype p) sq of Some k \<Rightarrow> k | None \<Rightarrow> 0)"

definition ep_hash :: "Square \<Rightarrow> 64 word" where
  "ep_hash e = (if e = kNoSquare then 0 else case en_passant_key e of Some k \<Rightarrow> k | None \<Rightarrow> 0)"

text \<open>The xor of the piece keys of the pieces standing on a list of squares.\<close>

definition board_hash :: "(Square \<Rightarrow> Piece) \<Rightarrow> Square list \<Rightarrow> 64 word" where
  "board_hash mb sqs = foldr (\<lambda>sq k. piece_hash (mb sq) sq XOR k) sqs 0"

text \<open>The stored key of a position is the key computed from scratch.\<close>

definition key_ok :: "Position \<Rightarrow> bool" where
  "key_ok pos \<longleftrightarrow> key_from_scratch pos = Some (key pos)"

subsection \<open>Valid positions\<close>

text \<open>
  The en-passant square, if there is one, is an empty square of the board; on the third or
  sixth rank for \<open>ep_rank_ok\<close>.
\<close>

definition ep_ok :: "Position \<Rightarrow> bool" where
  "ep_ok pos \<longleftrightarrow> en_passant pos \<le> 64
     \<and> (en_passant pos < 64 \<longrightarrow> mailbox (board pos) (en_passant pos) = kNoPiece)"

definition ep_rank_ok :: "Position \<Rightarrow> bool" where
  "ep_rank_ok pos \<longleftrightarrow> (en_passant pos < 64 \<longrightarrow> rank_of (en_passant pos) \<in> {2, 5})"

text \<open>
  A castling right is only held while the king of that colour is the only king of its colour
  and stands on its home square, and the rook stands on its corner.
\<close>

definition king_home :: "Color \<Rightarrow> Square" where
  "king_home c = (case c of White \<Rightarrow> 4 | Black \<Rightarrow> 60)"

definition side_ok :: "Position \<Rightarrow> Color \<Rightarrow> CastlingRights \<Rightarrow> Square \<Rightarrow> bool" where
  "side_ok pos c right rook_sq \<longleftrightarrow>
     (castling pos AND right \<noteq> 0 \<longrightarrow>
        (\<forall>sq. mailbox (board pos) sq = Piece c King \<longleftrightarrow> sq = king_home c)
        \<and> mailbox (board pos) rook_sq = Piece c Rook)"

definition castling_ok :: "Position \<Rightarrow> bool" where
  "castling_ok pos \<longleftrightarrow>
     side_ok pos White kWhiteKingside 7 \<and> side_ok pos White kWhiteQueenside 0
   \<and> side_ok pos Black kBlackKingside 63 \<and> side_ok pos Black kBlackQueenside 56"

text \<open>
  A valid position: a coherent board, an empty en-passant square, and castling rights that
  match the placement of kings and rooks.
\<close>

definition valid_position :: "Position \<Rightarrow> bool" where
  "valid_position pos \<longleftrightarrow> board_ok (board pos) \<and> ep_ok pos \<and> castling_ok pos"

text \<open>
  The shape of a move that \<open>make_move\<close> can play on a position: both squares on the board, a
  piece on the origin, and for each flag the squares that the special handling touches.
\<close>

definition move_ok :: "Position \<Rightarrow> Move \<Rightarrow> bool" where
  "move_ok pos m \<longleftrightarrow>
     from_sq m < 64 \<and> to_sq m < 64 \<and> from_sq m \<noteq> to_sq m
   \<and> ptype (mailbox (board pos) (from_sq m)) \<noteq> NoType
   \<and> (case flag m of
        Normal \<Rightarrow> promotion m = NoType
      | DoublePawn \<Rightarrow> promotion m = NoType
          \<and> make_square (file_of (from_sq m)) ((rank_of (from_sq m) + rank_of (to_sq m)) div 2) < 64
          \<and> make_square (file_of (from_sq m)) ((rank_of (from_sq m) + rank_of (to_sq m)) div 2) \<noteq> from_sq m
          \<and> make_square (file_of (from_sq m)) ((rank_of (from_sq m) + rank_of (to_sq m)) div 2) \<noteq> to_sq m
          \<and> mailbox (board pos)
               (make_square (file_of (from_sq m)) ((rank_of (from_sq m) + rank_of (to_sq m)) div 2))
              = kNoPiece
          \<and> rank_of (make_square (file_of (from_sq m)) ((rank_of (from_sq m) + rank_of (to_sq m)) div 2))
              \<in> {2, 5}
      | EnPassant \<Rightarrow> promotion m = NoType \<and> to_sq m = en_passant pos
          \<and> mailbox (board pos) (to_sq m) = kNoPiece
          \<and> make_square (file_of (to_sq m)) (rank_of (from_sq m)) < 64
          \<and> make_square (file_of (to_sq m)) (rank_of (from_sq m)) \<noteq> from_sq m
          \<and> (rank_of (from_sq m) = rank_of (to_sq m) + 1 \<or> rank_of (to_sq m) = rank_of (from_sq m) + 1)
      | Promotion \<Rightarrow> promotion m \<in> {Queen, Rook, Bishop, Knight}
          \<and> ptype (mailbox (board pos) (from_sq m)) = Pawn
      | CastleKingside \<Rightarrow> promotion m = NoType
          \<and> from_sq m = king_home (side_to_move pos) \<and> to_sq m = king_home (side_to_move pos) + 2
          \<and> mailbox (board pos) (to_sq m) = kNoPiece
          \<and> mailbox (board pos) (king_home (side_to_move pos) + 1) = kNoPiece
          \<and> ptype (mailbox (board pos) (king_home (side_to_move pos) + 3)) \<noteq> NoType
      | CastleQueenside \<Rightarrow> promotion m = NoType
          \<and> from_sq m = king_home (side_to_move pos) \<and> to_sq m = king_home (side_to_move pos) - 2
          \<and> mailbox (board pos) (to_sq m) = kNoPiece
          \<and> mailbox (board pos) (king_home (side_to_move pos) - 1) = kNoPiece
          \<and> ptype (mailbox (board pos) (king_home (side_to_move pos) - 4)) \<noteq> NoType)"

subsection \<open>The position after a move\<close>

text \<open>
  The effect of \<open>make_move\<close> written in one piece: where a capture happens, which piece lands,
  the rook slide of a castling move, and the fields of the resulting position.
\<close>

definition capture_square :: "Move \<Rightarrow> Square" where
  "capture_square m =
     (if flag m = EnPassant then make_square (file_of (to_sq m)) (rank_of (from_sq m)) else to_sq m)"

definition placed_piece :: "Position \<Rightarrow> Move \<Rightarrow> Piece" where
  "placed_piece pos m =
     (if flag m = Promotion \<and> promotion m \<noteq> NoType
      then Piece (color (mailbox (board pos) (from_sq m))) (promotion m)
      else mailbox (board pos) (from_sq m))"

definition rook_squares :: "Move \<Rightarrow> (Square \<times> Square) option" where
  "rook_squares m =
     (if flag m = CastleKingside
      then Some (make_square 7 (rank_of (from_sq m)), make_square 5 (rank_of (from_sq m)))
      else if flag m = CastleQueenside
      then Some (make_square 0 (rank_of (from_sq m)), make_square 3 (rank_of (from_sq m)))
      else None)"

definition board_after :: "Position \<Rightarrow> Move \<Rightarrow> Board" where
  "board_after pos m =
     (let b = board pos;
          b1 = lift b (from_sq m);
          b2 = (if mailbox b (capture_square m) \<noteq> kNoPiece then lift b1 (capture_square m) else b1);
          b3 = place b2 (to_sq m) (placed_piece pos m)
      in case rook_squares m of
           None \<Rightarrow> b3
         | Some (rf, rt) \<Rightarrow> place (lift b3 rf) rt (mailbox b3 rf))"

definition ep_after :: "Move \<Rightarrow> Square" where
  "ep_after m =
     (if flag m = DoublePawn
      then make_square (file_of (from_sq m)) ((rank_of (from_sq m) + rank_of (to_sq m)) div 2)
      else kNoSquare)"

definition castling_after :: "Position \<Rightarrow> Move \<Rightarrow> CastlingRights" where
  "castling_after pos m =
     castling pos AND castling_mask_for (from_sq m) AND castling_mask_for (to_sq m)"

definition key_after :: "Position \<Rightarrow> Move \<Rightarrow> 64 word" where
  "key_after pos m =
     (let b = board pos; piece = mailbox b (from_sq m); captured = mailbox b (capture_square m)
      in key pos
         XOR piece_hash piece (from_sq m)
         XOR (if captured \<noteq> kNoPiece then piece_hash captured (capture_square m) else 0)
         XOR piece_hash (placed_piece pos m) (to_sq m)
         XOR (case rook_squares m of
                None \<Rightarrow> 0
              | Some (rf, rt) \<Rightarrow> piece_hash (mailbox b rf) rf XOR piece_hash (mailbox b rf) rt)
         XOR ep_hash (en_passant pos) XOR ep_hash (ep_after m)
         XOR castling_key (castling pos) XOR castling_key (castling_after pos m)
         XOR side_to_move_key)"

definition made :: "Position \<Rightarrow> Move \<Rightarrow> Position" where
  "made pos m =
     \<lparr> board = board_after pos m,
       side_to_move = opposite (side_to_move pos),
       castling = castling_after pos m,
       en_passant = ep_after m,
       halfmove_clock =
         (if ptype (mailbox (board pos) (from_sq m)) = Pawn
             \<or> mailbox (board pos) (capture_square m) \<noteq> kNoPiece
          then 0 else halfmove_clock pos + 1),
       fullmove_number =
         (if side_to_move pos = Black then fullmove_number pos + 1 else fullmove_number pos),
       key = key_after pos m,
       history = history pos @
         [\<lparr> undo_castling = castling pos, undo_en_passant = en_passant pos,
            undo_halfmove_clock = halfmove_clock pos,
            undo_captured = mailbox (board pos) (capture_square m), undo_key = key pos \<rparr>],
       key_history = key_history pos @ [key_after pos m] \<rparr>"

subsection \<open>Playing a sequence of moves\<close>

text \<open>
  \<open>play pos ms\<close> makes the moves of \<open>ms\<close> one after the other, each of them taken from the
  list that \<open>pseudo_legal\<close> returns for the position where it is made.
\<close>

fun play :: "Position \<Rightarrow> Move list \<Rightarrow> Position option" where
  "play pos [] = Some pos"
| "play pos (m # ms) =
     (case pseudo_legal pos of
        None \<Rightarrow> None
      | Some l \<Rightarrow> if m \<in> set l
                  then (case make_move pos m of None \<Rightarrow> None | Some p \<Rightarrow> play p ms)
                  else None)"

subsection \<open>Example positions\<close>

text \<open>
  A king and a pawn against a king, White to move, with the moves that the generator lists
  for it; and a descriptor whose en-passant square is occupied by a white pawn, Black to
  move.
\<close>

definition fenP :: string where
  "fenP = ''4k3/8/8/8/8/8/4P3/4K3 w - - 0 1''"

definition boardP :: Board where
  "boardP = place (place (place empty_board 60 (Piece Black King)) 12 (Piece White Pawn))
              4 (Piece White King)"

definition keyP :: "64 word" where
  "keyP = castling_key kCastlingNone XOR ep_hash kNoSquare XOR board_hash (mailbox boardP) [0..<64]"

definition posP :: Position where
  "posP = \<lparr> board = boardP, side_to_move = White, castling = kCastlingNone,
            en_passant = kNoSquare, halfmove_clock = 0, fullmove_number = 1, key = keyP,
            history = [], key_history = [keyP] \<rparr>"

definition movesP :: "Move list" where
  "movesP = [Move 12 20 Normal NoType, Move 12 28 DoublePawn NoType, Move 4 3 Normal NoType,
             Move 4 5 Normal NoType, Move 4 11 Normal NoType, Move 4 13 Normal NoType]"

definition fenB :: string where
  "fenB = ''4k3/8/8/8/3p4/4P3/8/4K3 b - e3 0 1''"

definition boardB :: Board where
  "boardB = place (place (place (place empty_board 60 (Piece Black King)) 27 (Piece Black Pawn))
              20 (Piece White Pawn)) 4 (Piece White King)"

definition keyB :: "64 word" where
  "keyB = castling_key kCastlingNone XOR side_to_move_key XOR ep_hash 20
          XOR board_hash (mailbox boardB) [0..<64]"

definition posB :: Position where
  "posB = \<lparr> board = boardB, side_to_move = Black, castling = kCastlingNone,
            en_passant = 20, halfmove_clock = 0, fullmove_number = 1, key = keyB,
            history = [], key_history = [keyB] \<rparr>"

definition movesB :: "Move list" where
  "movesB = [Move 27 19 Normal NoType, Move 27 20 Normal NoType, Move 27 20 EnPassant NoType,
             Move 60 51 Normal NoType, Move 60 52 Normal NoType, Move 60 53 Normal NoType,
             Move 60 59 Normal NoType, Move 60 61 Normal NoType]"

text \<open>The positions after Kd1, Kd8, Ke1 and Ke8 from the king and pawn position.\<close>

definition posP1 :: Position where "posP1 = made posP (Move 4 3 Normal NoType)"
definition posP2 :: Position where "posP2 = made posP1 (Move 60 59 Normal NoType)"
definition posP3 :: Position where "posP3 = made posP2 (Move 3 4 Normal NoType)"
definition posP4 :: Position where "posP4 = made posP3 (Move 59 60 Normal NoType)"

text \<open>
  King and rook on their home squares with the kingside right, and a black knight on h3.
\<close>

definition fenA :: string where
  "fenA = ''4k3/8/8/8/8/7n/8/4K2R w K - 0 1''"

definition boardA :: Board where
  "boardA = place (place (place (place empty_board 60 (Piece Black King)) 23 (Piece Black Knight))
              4 (Piece White King)) 7 (Piece White Rook)"

definition keyA :: "64 word" where
  "keyA = castling_key kWhiteKingside XOR ep_hash kNoSquare XOR board_hash (mailbox boardA) [0..<64]"

definition posA :: Position where
  "posA = \<lparr> board = boardA, side_to_move = White, castling = kWhiteKingside,
            en_passant = kNoSquare, halfmove_clock = 0, fullmove_number = 1, key = keyA,
            history = [], key_history = [keyA] \<rparr>"

definition movesA :: "Move list" where
  "movesA = [Move 7 5 Normal NoType, Move 7 6 Normal NoType, Move 7 15 Normal NoType,
             Move 7 23 Normal NoType, Move 4 3 Normal NoType, Move 4 5 Normal NoType,
             Move 4 11 Normal NoType, Move 4 12 Normal NoType, Move 4 13 Normal NoType]"

subsection \<open>Castling conditions\<close>

text \<open>
  The conditions under which a castling move is generated: the right is held, the squares
  between king and rook are empty, the king is not in check, and the two squares the king
  crosses or reaches are not attacked.
\<close>

definition home_rank :: "Color \<Rightarrow> nat" where
  "home_rank c = (if c = White then 0 else 7)"

definition kingside_ready :: "Position \<Rightarrow> bool" where
  "kingside_ready pos \<longleftrightarrow>
     (let us = side_to_move pos; them = opposite us;
          f_sq = make_square 5 (home_rank us); g_sq = make_square 6 (home_rank us)
      in castling pos AND (if us = White then kWhiteKingside else kBlackKingside) \<noteq> 0
       \<and> ptype (mailbox (board pos) f_sq) = NoType \<and> ptype (mailbox (board pos) g_sq) = NoType
       \<and> is_in_check pos us = Some False
       \<and> is_square_attacked pos f_sq them = Some False
       \<and> is_square_attacked pos g_sq them = Some False)"

definition queenside_ready :: "Position \<Rightarrow> bool" where
  "queenside_ready pos \<longleftrightarrow>
     (let us = side_to_move pos; them = opposite us;
          b_sq = make_square 1 (home_rank us); c_sq = make_square 2 (home_rank us);
          d_sq = make_square 3 (home_rank us)
      in castling pos AND (if us = White then kWhiteQueenside else kBlackQueenside) \<noteq> 0
       \<and> ptype (mailbox (board pos) b_sq) = NoType \<and> ptype (mailbox (board pos) c_sq) = NoType
       \<and> ptype (mailbox (board pos) d_sq) = NoType
       \<and> is_in_check pos us = Some False
       \<and> is_square_attacked pos c_sq them = Some False
       \<and> is_square_attacked pos d_sq them = Some False)"

subsection \<open>A cancelled search\<close>

text \<open>
  An environment in which every load of the cancellation flag returns true, search limits
  without a time limit, a \<open>negamax\<close> that never returns, an initial search state, and the
  result of the cancelled search in the king and pawn position.
\<close>

definition cancelled_env :: Env where
  "cancelled_env = \<lparr> flag_load = (\<lambda>n. True), clock_now = (\<lambda>n. 0) \<rparr>"

definition limits_example :: SearchLimits where
  "limits_example = \<lparr> max_depth = 64, time_limit_ms = - 1 \<rparr>"

definition no_negamax :: Negamax where
  "no_negamax = (\<lambda>env s pos d a b ply allow_null. None)"

definition search_example :: Search where
  "search_example = \<lparr> tt = tt_example, killers = (\<lambda>ply k. kNullMove),
     history_table = (\<lambda>c f t. 0), deadline = 0, has_deadline = False, nodes = 0,
     flag_loads = 0, clock_reads = 0 \<rparr>"

definition result_example :: SearchResult where
  "result_example = \<lparr> res_best_move = Move 12 20 Normal NoType, score_cp = - kInfScore,
     res_depth = 0, res_nodes = 0 \<rparr>"

text \<open>
  The search state with which \<open>search\<close> starts its work, after it has reset the node counter
  and the heuristics, aged the table and set the deadline; and the condition that the root
  search is stopped before its first iteration completes: \<open>should_stop\<close> holds at the poll
  that opens the iteration at depth 1 or at the poll that follows its loop over the root
  moves.
\<close>

definition search_start :: "Env \<Rightarrow> Search \<Rightarrow> SearchLimits \<Rightarrow> Search" where
  "search_start env s0 limits =
     (let s = s0\<lparr> nodes := 0 \<rparr>;
          s = reset_heuristics s;
          s = s\<lparr> tt := new_search (tt s) \<rparr>;
          s = s\<lparr> has_deadline := (time_limit_ms limits > 0) \<rparr>
      in if has_deadline s
         then s\<lparr> deadline := clock_now env (clock_reads s) + time_limit_ms limits,
                   clock_reads := clock_reads s + 1 \<rparr>
         else s)"

definition stopped_in_first_iteration ::
  "Negamax \<Rightarrow> Env \<Rightarrow> Search \<Rightarrow> Position \<Rightarrow> Move list \<Rightarrow> bool" where
  "stopped_in_first_iteration negamax env s pos root_moves \<longleftrightarrow>
     (let (stop, s1) = should_stop env s
      in stop \<or>
         (case root_loop negamax env 1 kInfScore root_moves
                 (s1, pos, - kInfScore, kNullMove, - kInfScore) of
            None \<Rightarrow> False
          | Some (s2, pos2, iter_score, iter_best, alpha) \<Rightarrow> fst (should_stop env s2)))"

subsection \<open>Well-formed descriptors\<close>

text \<open>
  The rows of a placement field are its pieces between slashes. A row is made of piece
  letters, which stand for one square each, and of digits 1 to 8, which stand for that many
  empty squares; a placement is well formed when it has eight rows of eight squares.
\<close>

fun fen_rows :: "string \<Rightarrow> string list" where
  "fen_rows [] = [[]]"
| "fen_rows (c # cs) =
     (if c = CHR ''/'' then [] # fen_rows cs
      else (c # hd (fen_rows cs)) # tl (fen_rows cs))"














section \<open>Squares and move text\<close>

lemma file_char_iff: "(0 \<le> char_code c - 97 \<and> char_code c - 97 \<le> 7) \<longleftrightarrow> c \<in> set ''abcdefgh''"
proof
  assume "0 \<le> char_code c - 97 \<and> char_code c - 97 \<le> 7"
  then have "of_char c \<in> {97, 98, 99, 100, 101, 102, 103, 104 :: nat}"
    unfolding char_code_def by auto
  then have "(of_char c :: nat) \<in> of_char ` set ''abcdefgh''" by simp
  then obtain d where d: "d \<in> set ''abcdefgh''" and e: "(of_char c :: nat) = of_char d"
    by (elim imageE)
  from e have "c = d" by (simp only: of_char_eq_iff)
  with d show "c \<in> set ''abcdefgh''" by simp
next
  assume "c \<in> set ''abcdefgh''"
  then show "0 \<le> char_code c - 97 \<and> char_code c - 97 \<le> 7"
    by (auto simp: char_code_def)
qed

lemma rank_char_iff: "(0 \<le> char_code c - 49 \<and> char_code c - 49 \<le> 7) \<longleftrightarrow> c \<in> set ''12345678''"
proof
  assume "0 \<le> char_code c - 49 \<and> char_code c - 49 \<le> 7"
  then have "of_char c \<in> {49, 50, 51, 52, 53, 54, 55, 56 :: nat}"
    unfolding char_code_def by auto
  then have "(of_char c :: nat) \<in> of_char ` set ''12345678''" by simp
  then obtain d where d: "d \<in> set ''12345678''" and e: "(of_char c :: nat) = of_char d"
    by (elim imageE)
  from e have "c = d" by (simp only: of_char_eq_iff)
  with d show "c \<in> set ''12345678''" by simp
next
  assume "c \<in> set ''12345678''"
  then show "0 \<le> char_code c - 49 \<and> char_code c - 49 \<le> 7"
    by (auto simp: char_code_def)
qed

lemma make_square_lt: "f \<le> 7 \<Longrightarrow> r \<le> 7 \<Longrightarrow> make_square f r = r * 8 + f \<and> make_square f r < 64"
  by (simp add: make_square_def)

lemma parse_square_valid_iff: "parse_square s \<noteq> kNoSquare \<longleftrightarrow> names_square s"
proof (cases "length s = 2")
  case False
  then show ?thesis by (simp add: parse_square_def names_square_def)
next
  case True
  show ?thesis
  proof (cases "names_square s")
    case True
    then have f: "0 \<le> char_code (s ! 0) - 97 \<and> char_code (s ! 0) - 97 \<le> 7"
      and r: "0 \<le> char_code (s ! 1) - 49 \<and> char_code (s ! 1) - 49 \<le> 7"
      unfolding names_square_def file_char_iff rank_char_iff by simp_all
    have "make_square (nat (char_code (s ! 0) - 97)) (nat (char_code (s ! 1) - 49)) < 64"
      using f r by (intro make_square_lt[THEN conjunct2]) auto
    with True f r show ?thesis
      by (simp add: parse_square_def names_square_def kNoSquare_def Let_def)
  next
    case False
    with \<open>length s = 2\<close> have "\<not> ((0 \<le> char_code (s ! 0) - 97 \<and> char_code (s ! 0) - 97 \<le> 7)
        \<and> (0 \<le> char_code (s ! 1) - 49 \<and> char_code (s ! 1) - 49 \<le> 7))"
      unfolding file_char_iff rank_char_iff names_square_def by simp
    with False \<open>length s = 2\<close> show ?thesis
      by (auto simp add: parse_square_def Let_def)
  qed
qed


text \<open>
  Claim C9. For every string of at least five characters whose first four name two board
  squares, \<open>from_uci\<close> returns a move with the flag \<open>Promotion\<close> and those two squares,
  and when the fifth character is none of n, b, r, q its promotion type is \<open>None\<close>. For
  every string shorter than four characters, or whose first four characters do not name
  two squares, it returns the null move; it has no error result.
\<close>

theorem from_uci_lenient:
  "(length s \<ge> 5 \<and> names_square (take 2 s) \<and> names_square (take 2 (drop 2 s))
      \<longrightarrow> flag (from_uci s) = Promotion
          \<and> from_sq (from_uci s) = parse_square (take 2 s)
          \<and> to_sq (from_uci s) = parse_square (take 2 (drop 2 s))
          \<and> (s ! 4 \<notin> set ''nbrq'' \<longrightarrow> promotion (from_uci s) = NoType))
   \<and> (length s < 4 \<or> \<not> names_square (take 2 s) \<or> \<not> names_square (take 2 (drop 2 s))
      \<longrightarrow> from_uci s = kNullMove)"
  using parse_square_valid_iff[of "take 2 s"] parse_square_valid_iff[of "take 2 (drop 2 s)"]
  by (auto simp add: from_uci_def Let_def promo_of_char_def)

theorem from_uci_lenient_witness:
  "flag (from_uci ''e7e8x'') = Promotion \<and> promotion (from_uci ''e7e8x'') = NoType
   \<and> from_sq (from_uci ''e7e8x'') = 52 \<and> to_sq (from_uci ''e7e8x'') = 60
   \<and> from_uci ''e9e8q'' = kNullMove \<and> from_uci ''e2'' = kNullMove"
  using from_uci_lenient[of "''e7e8x''"] from_uci_lenient[of "''e9e8q''"] from_uci_lenient[of "''e2''"]
  by (simp add: names_square_def parse_square_def char_code_def make_square_def Let_def)

section \<open>The transposition table\<close>

lemma store_in_range:
  assumes "index t k < length (tt_table t)"
  shows "store t k d sc b bm se =
     (if should_replace (tt_table t ! index t k) (tt_age t) d b
      then Some (t\<lparr> tt_table := (tt_table t)[index t k :=
             (tt_table t ! index t k)\<lparr> key32 := key_upper k, score := word_of_int sc,
                static_eval := word_of_int se,
                best_move := (if key32 (tt_table t ! index t k) = key_upper k \<and> is_null bm
                                 \<and> \<not> is_null (best_move (tt_table t ! index t k))
                              then best_move (tt_table t ! index t k) else bm),
                depth := word_of_int d, bound := b, age := tt_age t \<rparr>] \<rparr>)
      else Some t)"
  using assms by (simp add: store_def Let_def)

lemma index_example:
  "index tt_example 0x9999888877776666 = 2" "index tt_example_full 0x9999888877776666 = 2"
  by (simp_all add: index_def tt_example_def tt_example_full_def)

lemma key_upper_example: "key_upper 0x9999888877776666 = 0x99998888"
  by (simp add: key_upper_def)

lemma example_fields:
  "length (tt_table tt_example) = 4" "tt_age tt_example = 0" "tt_mask tt_example = 3"
  "length (tt_table tt_example_full) = 4" "tt_age tt_example_full = 0"
  "tt_table tt_example ! 0 = empty_entry" "tt_table tt_example ! 1 = empty_entry"
  "tt_table tt_example ! Suc 0 = empty_entry" "tt_table tt_example ! 3 = empty_entry"
  "tt_table tt_example_full ! 2 = \<lparr> key32 = 0x99998888, score = 100, static_eval = 50,
                 best_move = Move 12 28 DoublePawn NoType, depth = 5, bound = Exact, age = 0,
                 padding = 0 \<rparr>"
  by (simp_all add: tt_example_def tt_example_full_def)

text \<open>
  Claim C7. For a slot inside the table: when the slot is empty, or its age differs from
  the current age, or the new depth is at least the stored depth, or the new bound is
  \<open>Exact\<close> and the stored one is not, \<open>store\<close> writes the slot: the key tag, score, static
  evaluation, depth, bound and current age are the new ones, and the best move is the
  new one unless the slot had the same key tag, the new move is null and the stored one
  is not, in which case the stored best move stays. In every other case \<open>store\<close> leaves
  the table as it was.
\<close>

theorem store_replacement_rule:
  assumes "index t k < length (tt_table t)"
  shows "(bound (tt_table t ! index t k) = NoBound
          \<or> age (tt_table t ! index t k) \<noteq> tt_age t
          \<or> d \<ge> uint (depth (tt_table t ! index t k))
          \<or> (b = Exact \<and> bound (tt_table t ! index t k) \<noteq> Exact)
         \<longrightarrow> (\<exists>t'. store t k d sc b bm se = Some t'
                \<and> tt_table t' ! index t k =
                    \<lparr> key32 = key_upper k, score = word_of_int sc, static_eval = word_of_int se,
                      best_move = (if key32 (tt_table t ! index t k) = key_upper k \<and> is_null bm
                                      \<and> \<not> is_null (best_move (tt_table t ! index t k))
                                   then best_move (tt_table t ! index t k) else bm),
                      depth = word_of_int d, bound = b, age = tt_age t,
                      padding = padding (tt_table t ! index t k) \<rparr>))
       \<and> (\<not> (bound (tt_table t ! index t k) = NoBound
              \<or> age (tt_table t ! index t k) \<noteq> tt_age t
              \<or> d \<ge> uint (depth (tt_table t ! index t k))
              \<or> (b = Exact \<and> bound (tt_table t ! index t k) \<noteq> Exact))
         \<longrightarrow> store t k d sc b bm se = Some t)"
  using assms by (simp add: store_in_range should_replace_def)

theorem store_replacement_rule_witness:
  "index tt_example_full 0x9999888877776666 < length (tt_table tt_example_full)
   \<and> (\<exists>t'. store tt_example_full 0x9999888877776666 6 120 Upper kNullMove 60 = Some t'
        \<and> tt_table t' ! 2 =
             \<lparr> key32 = 0x99998888, score = 120, static_eval = 60,
               best_move = Move 12 28 DoublePawn NoType, depth = 6, bound = Upper, age = 0,
               padding = 0 \<rparr>)
   \<and> store tt_example_full 0x9999888877776666 4 7 Lower kNullMove 60 = Some tt_example_full"
  using store_replacement_rule[of tt_example_full "0x9999888877776666" 6 Upper 120 kNullMove 60]
        store_replacement_rule[of tt_example_full "0x9999888877776666" 4 Lower 7 kNullMove 60]
  by (simp add: index_example example_fields key_upper_example is_null_def kNullMove_def)

text \<open>
  Claim C10. For a slot inside the table, \<open>store\<close> returns a table of the same length,
  with the same age counter and mask, in which every entry other than the one at
  \<open>index key\<close> is unchanged; and when the replacement rule rejects the write, the whole
  table state is unchanged.
\<close>

theorem store_frame:
  assumes "index t k < length (tt_table t)"
  shows "\<exists>t'. store t k d sc b bm se = Some t'
           \<and> length (tt_table t') = length (tt_table t)
           \<and> tt_age t' = tt_age t \<and> tt_mask t' = tt_mask t
           \<and> (\<forall>i. i \<noteq> index t k \<longrightarrow> tt_table t' ! i = tt_table t ! i)
           \<and> (\<not> should_replace (tt_table t ! index t k) (tt_age t) d b \<longrightarrow> t' = t)"
  using assms by (simp add: store_in_range)

theorem store_frame_witness:
  "index tt_example 0x9999888877776666 < length (tt_table tt_example)
   \<and> (\<exists>t'. store tt_example 0x9999888877776666 5 100 Exact (Move 12 28 DoublePawn NoType) 50 = Some t'
        \<and> length (tt_table t') = 4 \<and> tt_age t' = 0 \<and> tt_mask t' = 3
        \<and> tt_table t' ! 0 = empty_entry \<and> tt_table t' ! 1 = empty_entry
        \<and> tt_table t' ! 3 = empty_entry)
   \<and> \<not> should_replace (tt_table tt_example_full ! 2) (tt_age tt_example_full) 4 Lower
   \<and> store tt_example_full 0x9999888877776666 4 7 Lower kNullMove 60 = Some tt_example_full"
proof -
  have r: "index tt_example 0x9999888877776666 < length (tt_table tt_example)"
    by (simp add: index_example example_fields)
  have r': "index tt_example_full 0x9999888877776666 < length (tt_table tt_example_full)"
    by (simp add: index_example example_fields)
  have n: "\<not> should_replace (tt_table tt_example_full ! 2) (tt_age tt_example_full) 4 Lower"
    by (simp add: example_fields should_replace_def)
  from store_frame[OF r, of 5 100 Exact "Move 12 28 DoublePawn NoType" 50]
  obtain t' where t': "store tt_example 0x9999888877776666 5 100 Exact (Move 12 28 DoublePawn NoType) 50 = Some t'"
    "length (tt_table t') = length (tt_table tt_example)" "tt_age t' = tt_age tt_example"
    "tt_mask t' = tt_mask tt_example"
    "\<forall>i. i \<noteq> index tt_example 0x9999888877776666 \<longrightarrow> tt_table t' ! i = tt_table tt_example ! i"
    by blast
  from t'(5) have e: "tt_table t' ! 0 = empty_entry" "tt_table t' ! 1 = empty_entry"
    "tt_table t' ! 3 = empty_entry"
    by (simp_all add: index_example example_fields)
  from store_frame[OF r', of 4 7 Lower kNullMove 60] n
  have s: "store tt_example_full 0x9999888877776666 4 7 Lower kNullMove 60 = Some tt_example_full"
    by (auto simp: index_example)
  show ?thesis using r n t'(1-4) e s by (simp add: example_fields)
qed

section \<open>Bits of bitboards\<close>

lemma bit_square_bb: "bit (square_bb sq) n \<longleftrightarrow> n = sq \<and> sq < 64"
  by (auto simp add: square_bb_def bit_simps)

lemma bit_bb_set_bit: "bit (bb_set_bit b sq) n \<longleftrightarrow> bit b n \<or> (n = sq \<and> sq < 64)"
  by (auto simp add: bb_set_bit_def bit_simps bit_square_bb)

lemma bit_clear_bit: "bit (clear_bit b sq) n \<longleftrightarrow> bit b n \<and> n \<noteq> sq"
  by (auto simp add: clear_bit_def bit_simps bit_square_bb dest: bit_imp_le_length)

lemma bit_lt_64: "bit (b :: Bitboard) n \<Longrightarrow> n < 64"
  by (drule bit_imp_le_length) simp

lemma nonzero_has_bit: "(b :: Bitboard) \<noteq> 0 \<Longrightarrow> \<exists>n<64. bit b n"
  by (metis bit_eq_iff bit_lt_64 bit_0_eq bot_apply bot_bool_def)

lemma lsb_props:
  assumes "b \<noteq> 0"
  shows "lsb b < 64" and "bit b (lsb b)"
proof -
  from nonzero_has_bit[OF assms] obtain n where n: "n < 64" "bit b n" by blast
  then have "find (bit b) [0..<64] \<noteq> None"
    by (auto simp: find_None_iff)
  then obtain k where k: "find (bit b) [0..<64] = Some k" by blast
  then have "k < 64 \<and> bit b k"
    by (auto simp: find_Some_iff)
  with k show "lsb b < 64" and "bit b (lsb b)" by (simp_all add: lsb_def)
qed

lemma bb_squares_sound: "sq \<in> set (bb_squares b) \<Longrightarrow> bit b sq"
proof (induction b rule: bb_squares.induct)
  case (1 b)
  show ?case
  proof (cases "b = 0")
    case True
    with 1 show ?thesis by (simp add: bb_squares.simps)
  next
    case False
    with 1(2) have "sq = lsb b \<or> sq \<in> set (bb_squares (b AND (b - 1)))"
      by (subst (asm) bb_squares.simps) auto
    then show ?thesis
    proof
      assume "sq = lsb b" then show ?thesis using lsb_props(2)[OF False] by simp
    next
      assume "sq \<in> set (bb_squares (b AND (b - 1)))"
      then have "bit (b AND (b - 1)) sq" using 1(1)[OF False] by simp
      then show ?thesis by (simp add: bit_simps)
    qed
  qed
qed

lemma bit_shift_north: "bit (shift_north b) n \<longleftrightarrow> 8 \<le> n \<and> n < 64 \<and> bit b (n - 8)"
  by (auto simp add: shift_north_def bit_simps)

lemma bit_shift_south: "bit (shift_south b) n \<longleftrightarrow> bit b (n + 8)"
  by (auto simp add: shift_south_def bit_simps ac_simps)

text \<open>The squares of the board, rank by rank.\<close>

lemma upt_64:
  "[0..<64] =
     [0, 1, 2, 3, 4, 5, 6, 7] @
     [8, 9, 10, 11, 12, 13, 14, 15] @
     [16, 17, 18, 19, 20, 21, 22, 23] @
     [24, 25, 26, 27, 28, 29, 30, 31] @
     [32, 33, 34, 35, 36, 37, 38, 39] @
     [40, 41, 42, 43, 44, 45, 46, 47] @
     [48, 49, 50, 51, 52, 53, 54, 55] @
     [56, 57, 58, 59, 60, 61, 62, 63]"
  by code_simp

lemma all_less_64: "(\<forall>n<64. P n) \<longleftrightarrow> list_all P [0..<64]"
  by (auto simp: list_all_iff)

lemma bit_kFileA: "bit kFileA n \<longleftrightarrow> n < 64 \<and> n mod 8 = 0"
proof (cases "n < 64")
  case False
  then show ?thesis by (auto dest: bit_lt_64)
next
  case True
  have "\<forall>n<64. bit kFileA n \<longleftrightarrow> n mod 8 = 0"
    unfolding all_less_64 upt_64 kFileA_def by simp
  with True show ?thesis by simp
qed

lemma bit_kFileH: "bit kFileH n \<longleftrightarrow> n < 64 \<and> n mod 8 = 7"
proof (cases "n < 64")
  case False
  then show ?thesis by (auto dest: bit_lt_64)
next
  case True
  have "\<forall>n<64. bit kFileH n \<longleftrightarrow> n mod 8 = 7"
    unfolding all_less_64 upt_64 kFileH_def kFileA_def by simp
  with True show ?thesis by simp
qed

lemma bit_shift_ne: "bit (shift_ne b) n \<Longrightarrow> 9 \<le> n \<and> bit b (n - 9) \<and> n mod 8 \<noteq> 0"
  by (auto simp add: shift_ne_def bit_simps bit_kFileA)

lemma bit_shift_nw: "bit (shift_nw b) n \<Longrightarrow> 7 \<le> n \<and> bit b (n - 7) \<and> n mod 8 \<noteq> 7"
  by (auto simp add: shift_nw_def bit_simps bit_kFileH)

lemma bit_shift_se: "bit (shift_se b) n \<Longrightarrow> bit b (n + 7) \<and> n mod 8 \<noteq> 0"
  by (auto simp add: shift_se_def bit_simps ac_simps bit_kFileA)

lemma bit_shift_sw: "bit (shift_sw b) n \<Longrightarrow> bit b (n + 9) \<and> n mod 8 \<noteq> 7"
  by (auto simp add: shift_sw_def bit_simps ac_simps bit_kFileH)

lemma bit_kRank1: "bit kRank1 n \<longleftrightarrow> n < 8"
proof -
  have e: "kRank1 = mask 8" by (simp add: kRank1_def mask_eq_exp_minus_1)
  show ?thesis unfolding e by (simp only: bit_mask_iff) auto
qed

lemma bit_kRank3: "bit kRank3 n \<longleftrightarrow> 16 \<le> n \<and> n < 24"
  by (auto simp add: kRank3_def bit_simps bit_kRank1)

lemma bit_kRank6: "bit kRank6 n \<longleftrightarrow> 40 \<le> n \<and> n < 48"
  by (auto simp add: kRank6_def bit_simps bit_kRank1)

lemma bit_kRank8: "bit kRank8 n \<longleftrightarrow> 56 \<le> n \<and> n < 64"
  by (auto simp add: kRank8_def bit_simps bit_kRank1)

section \<open>Coherent boards\<close>

lemma piece_index_neg [simp]: "piece_index t < 0 \<longleftrightarrow> t = NoType"
  by (cases t) (simp_all add: piece_index_def)

lemma put_piece_eq:
  "put_piece b sq p = (if sq \<ge> 64 \<or> ptype p = NoType then None else Some (place b sq p))"
  by (simp add: put_piece_def place_def)

lemma remove_piece_eq:
  "remove_piece b sq =
     (if sq \<ge> 64 \<or> ptype (mailbox b sq) = NoType then None else Some (lift b sq))"
  by (simp add: remove_piece_def lift_def Let_def)

lemma mailbox_place [simp]: "mailbox (place b sq p) = (mailbox b)(sq := p)"
  by (simp add: place_def)

lemma mailbox_lift [simp]: "mailbox (lift b sq) = (mailbox b)(sq := kNoPiece)"
  by (simp add: lift_def)

lemma kNoPiece_simps [simp]: "ptype kNoPiece = NoType" "color kNoPiece = White"
  by (simp_all add: kNoPiece_def)

lemma board_ok_place:
  assumes ok: "board_ok b" and sq: "sq < 64" and e: "mailbox b sq = kNoPiece"
    and p: "ptype p \<noteq> NoType"
  shows "board_ok (place b sq p)"
proof -
  obtain c t where pe: "p = Piece c t" by (cases p)
  from p pe have t: "t \<noteq> NoType" by simp
  show ?thesis
    unfolding board_ok_def
  proof (intro conjI allI impI)
    fix s c' t' assume "t' \<noteq> NoType"
    then show "bit (pieces (place b sq p) c' t') s = (s < 64 \<and> mailbox (place b sq p) s = Piece c' t')"
      using ok sq e t unfolding board_ok_def pe
      by (auto simp add: place_def bit_bb_set_bit kNoPiece_def)
  next
    fix s c'
    show "bit (occupied (place b sq p) c') s =
        (s < 64 \<and> ptype (mailbox (place b sq p) s) \<noteq> NoType \<and> color (mailbox (place b sq p) s) = c')"
      using ok sq e t unfolding board_ok_def pe
      by (auto simp add: place_def bit_bb_set_bit)
  next
    fix s
    show "bit (occupied_all (place b sq p)) s = (s < 64 \<and> ptype (mailbox (place b sq p) s) \<noteq> NoType)"
      using ok sq e t unfolding board_ok_def pe
      by (auto simp add: place_def bit_bb_set_bit)
  next
    fix s assume "ptype (mailbox (place b sq p) s) = NoType"
    then show "mailbox (place b sq p) s = kNoPiece"
      using ok t unfolding board_ok_def pe by (auto simp add: place_def split: if_splits)
  next
    fix c' show "pieces (place b sq p) c' NoType = 0"
      using ok t unfolding board_ok_def pe by (auto simp add: place_def)
  qed
qed

lemma board_ok_lift:
  assumes ok: "board_ok b" and sq: "sq < 64" and p: "ptype (mailbox b sq) \<noteq> NoType"
  shows "board_ok (lift b sq)"
proof -
  obtain c t where pe: "mailbox b sq = Piece c t" by (cases "mailbox b sq")
  from p pe have t: "t \<noteq> NoType" by simp
  show ?thesis
    unfolding board_ok_def
  proof (intro conjI allI impI)
    fix s c' t' assume "t' \<noteq> NoType"
    then show "bit (pieces (lift b sq) c' t') s = (s < 64 \<and> mailbox (lift b sq) s = Piece c' t')"
      using ok sq t pe unfolding board_ok_def
      by (auto simp add: lift_def bit_clear_bit kNoPiece_def)
  next
    fix s c'
    show "bit (occupied (lift b sq) c') s =
        (s < 64 \<and> ptype (mailbox (lift b sq) s) \<noteq> NoType \<and> color (mailbox (lift b sq) s) = c')"
      using ok sq t pe unfolding board_ok_def
      by (auto simp add: lift_def bit_clear_bit)
  next
    fix s
    show "bit (occupied_all (lift b sq)) s = (s < 64 \<and> ptype (mailbox (lift b sq) s) \<noteq> NoType)"
      using ok sq t pe unfolding board_ok_def
      by (auto simp add: lift_def bit_clear_bit)
  next
    fix s assume "ptype (mailbox (lift b sq) s) = NoType"
    then show "mailbox (lift b sq) s = kNoPiece"
      using ok t unfolding board_ok_def by (auto simp add: lift_def split: if_splits)
  next
    fix c' show "pieces (lift b sq) c' NoType = 0"
      using ok t pe unfolding board_ok_def by (auto simp add: lift_def)
  qed
qed

lemma board_ext:
  assumes "board_ok b1" "board_ok b2" "mailbox b1 = mailbox b2"
  shows "b1 = b2"
proof -
  have p: "pieces b1 = pieces b2"
  proof (intro ext)
    fix c t
    show "pieces b1 c t = pieces b2 c t"
    proof (cases "t = NoType")
      case True
      with assms show ?thesis by (simp add: board_ok_def)
    next
      case False
      with assms show ?thesis
        by (intro bit_eqI) (simp add: board_ok_def)
    qed
  qed
  have o: "occupied b1 = occupied b2"
    using assms by (intro ext bit_eqI) (simp add: board_ok_def)
  have a: "occupied_all b1 = occupied_all b2"
    using assms by (intro bit_eqI) (simp add: board_ok_def)
  from p o a assms(3) show ?thesis by simp
qed

lemma board_ok_empty: "board_ok empty_board"
  by (simp add: board_ok_def empty_board_def kEmptyBB_def kNoPiece_def)

section \<open>The steps of make_move\<close>

lemma piece_at_eq [simp]: "sq < 64 \<Longrightarrow> piece_at b sq = Some (mailbox b sq)"
  by (simp add: piece_at_def)

lemma toggle_piece_hash_eq:
  "sq < 64 \<Longrightarrow> ptype p \<noteq> NoType \<Longrightarrow>
   toggle_piece_hash pos p sq = Some (pos\<lparr> key := key pos XOR piece_hash p sq \<rparr>)"
  by (simp add: toggle_piece_hash_def piece_hash_def piece_key_def)

lemma pos_put_piece_eq:
  "sq < 64 \<Longrightarrow> ptype p \<noteq> NoType \<Longrightarrow>
   pos_put_piece pos sq p = Some (pos\<lparr> board := place (board pos) sq p \<rparr>)"
  by (simp add: pos_put_piece_def put_piece_eq)

lemma pos_remove_piece_eq:
  "sq < 64 \<Longrightarrow> ptype (mailbox (board pos) sq) \<noteq> NoType \<Longrightarrow>
   pos_remove_piece pos sq = Some (pos\<lparr> board := lift (board pos) sq \<rparr>)"
  by (simp add: pos_remove_piece_def remove_piece_eq)

lemma set_en_passant_eq:
  "en_passant pos \<le> 64 \<Longrightarrow> e \<le> 64 \<Longrightarrow>
   set_en_passant pos e =
     Some (pos\<lparr> key := key pos XOR ep_hash (en_passant pos) XOR ep_hash e, en_passant := e \<rparr>)"
  by (auto simp add: set_en_passant_def toggle_en_passant_hash_def ep_hash_def kNoSquare_def
      en_passant_key_def Let_def xor.assoc)

lemma set_castling_eq:
  "set_castling pos cr =
     pos\<lparr> key := key pos XOR castling_key (castling pos) XOR castling_key cr, castling := cr \<rparr>"
  by (auto simp add: set_castling_def Let_def xor.assoc)

lemma kCastleMask_eq [simp]: "sq < 64 \<Longrightarrow> kCastleMask sq = Some (castling_mask_for sq)"
  by (simp add: kCastleMask_def)

lemma slide_rook_eq:
  "rf < 64 \<Longrightarrow> rt < 64 \<Longrightarrow> ptype (mailbox (board pos) rf) \<noteq> NoType \<Longrightarrow>
   slide_rook pos rf rt =
     Some (pos\<lparr> key := key pos XOR piece_hash (mailbox (board pos) rf) rf
                          XOR piece_hash (mailbox (board pos) rf) rt,
                board := place (lift (board pos) rf) rt (mailbox (board pos) rf) \<rparr>)"
  by (simp add: slide_rook_def toggle_piece_hash_eq pos_remove_piece_eq pos_put_piece_eq xor.assoc)

lemma unslide_rook_eq:
  "ra < 64 \<Longrightarrow> rh < 64 \<Longrightarrow> ptype (mailbox (board pos) ra) \<noteq> NoType \<Longrightarrow>
   unslide_rook pos ra rh =
     Some (pos\<lparr> board := place (lift (board pos) ra) rh (mailbox (board pos) ra) \<rparr>)"
  by (simp add: unslide_rook_def pos_remove_piece_eq pos_put_piece_eq)

section \<open>The position that make_move returns\<close>

lemma board_ok_NoType: "board_ok b \<Longrightarrow> mailbox b sq \<noteq> kNoPiece \<Longrightarrow> ptype (mailbox b sq) \<noteq> NoType"
  by (auto simp: board_ok_def)

lemmas pos_steps = toggle_piece_hash_eq pos_put_piece_eq pos_remove_piece_eq set_en_passant_eq
  set_castling_eq slide_rook_eq unslide_rook_eq

lemma if_upd_halfmove:
  "(if c then r\<lparr> halfmove_clock := a \<rparr> else r\<lparr> halfmove_clock := b \<rparr>)
     = r\<lparr> halfmove_clock := (if c then a else b) \<rparr>"
  by simp

lemma if_upd_fullmove:
  "(if c then r\<lparr> fullmove_number := a \<rparr> else r)
     = r\<lparr> fullmove_number := (if c then a else fullmove_number r) \<rparr>"
  by simp

lemma king_home_simps: "king_home c < 64" "king_home c + 1 < 64" "king_home c + 2 < 64"
  "king_home c + 3 < 64" "rank_of (king_home c) = (case c of White \<Rightarrow> 0 | Black \<Rightarrow> 7)"
  "make_square 7 (rank_of (king_home c)) = king_home c + 3"
  "make_square 5 (rank_of (king_home c)) = king_home c + 1"
  "make_square 0 (rank_of (king_home c)) = king_home c - 4"
  "make_square 3 (rank_of (king_home c)) = king_home c - 1"
  by (cases c; simp add: king_home_def rank_of_def make_square_def)+

lemma make_move_made:
  assumes v: "valid_position pos" and ok: "move_ok pos m"
  shows "make_move pos m = Some (made pos m)"
proof -
  obtain f t fl pr where m: "m = Move f t fl pr" by (cases m)
  from ok m have f: "f < 64" and t: "t < 64" and ft: "f \<noteq> t"
    and pf: "ptype (mailbox (board pos) f) \<noteq> NoType"
    by (auto simp: move_ok_def)
  from v have bok: "board_ok (board pos)" and ep: "en_passant pos \<le> 64"
    by (auto simp: valid_position_def ep_ok_def)
  note defs = make_move_def made_def board_after_def key_after_def capture_square_def
    placed_piece_def rook_squares_def ep_after_def castling_after_def toggle_side_hash_def
  note simps = pos_steps Let_def kNoSquare_def if_upd_halfmove if_upd_fullmove xor.assoc
    board_ok_NoType[OF bok]
  show ?thesis
  proof (cases fl)
    case Normal
    show ?thesis
      using f t ft pf ep
      by (cases "mailbox (board pos) t = kNoPiece") (simp_all add: defs m Normal simps)
  next
    case DoublePawn
    from ok m DoublePawn have "make_square (file_of f) ((rank_of f + rank_of t) div 2) < 64"
      by (simp add: move_ok_def)
    then show ?thesis
      using f t ft pf ep
      by (cases "mailbox (board pos) t = kNoPiece") (simp_all add: defs m DoublePawn simps)
  next
    case EnPassant
    from ok m EnPassant have c: "make_square (file_of t) (rank_of f) < 64"
       "make_square (file_of t) (rank_of f) \<noteq> f" "mailbox (board pos) t = kNoPiece"
      by (auto simp add: move_ok_def)
    then show ?thesis
      using f t ft pf ep
      by (cases "mailbox (board pos) (make_square (file_of t) (rank_of f)) = kNoPiece")
         (auto simp add: defs m EnPassant simps)
  next
    case CastleKingside
    show ?thesis
    proof (cases "side_to_move pos")
      case White
      with ok m CastleKingside have c: "f = 4" "t = 6" "mailbox (board pos) 6 = kNoPiece"
        "mailbox (board pos) 5 = kNoPiece" "ptype (mailbox (board pos) 7) \<noteq> NoType"
        by (auto simp add: move_ok_def king_home_def)
      then show ?thesis
        using pf ep
        by (simp add: defs m CastleKingside simps rank_of_def make_square_def)
    next
      case Black
      with ok m CastleKingside have c: "f = 60" "t = 62" "mailbox (board pos) 62 = kNoPiece"
        "mailbox (board pos) 61 = kNoPiece" "ptype (mailbox (board pos) 63) \<noteq> NoType"
        by (auto simp add: move_ok_def king_home_def)
      then show ?thesis
        using pf ep
        by (simp add: defs m CastleKingside simps rank_of_def make_square_def)
    qed
  next
    case CastleQueenside
    show ?thesis
    proof (cases "side_to_move pos")
      case White
      with ok m CastleQueenside have c: "f = 4" "t = 2" "mailbox (board pos) 2 = kNoPiece"
        "mailbox (board pos) 3 = kNoPiece" "ptype (mailbox (board pos) 0) \<noteq> NoType"
        by (auto simp add: move_ok_def king_home_def)
      then show ?thesis
        using pf ep
        by (simp add: defs m CastleQueenside simps rank_of_def make_square_def)
    next
      case Black
      with ok m CastleQueenside have c: "f = 60" "t = 58" "mailbox (board pos) 58 = kNoPiece"
        "mailbox (board pos) 59 = kNoPiece" "ptype (mailbox (board pos) 56) \<noteq> NoType"
        by (auto simp add: move_ok_def king_home_def)
      then show ?thesis
        using pf ep
        by (simp add: defs m CastleQueenside simps rank_of_def make_square_def)
    qed
  next
    case Promotion
    show ?thesis
      using f t ft pf ep
      by (cases "mailbox (board pos) t = kNoPiece"; cases "pr = NoType")
         (simp_all add: defs m Promotion simps)
  qed
qed

section \<open>The position that unmake_move returns\<close>

lemma opposite_opposite [simp]: "opposite (opposite c) = c"
  by (cases c) simp_all

lemma opposite_Black_iff [simp]: "opposite c = Black \<longleftrightarrow> c = White" "opposite c = White \<longleftrightarrow> c = Black"
  by (cases c; simp)+

lemma board_rt_quiet:
  assumes "board_ok b" "f < 64" "t < 64" "f \<noteq> t" "ptype (mailbox b f) \<noteq> NoType"
    "mailbox b t = kNoPiece" "ptype p \<noteq> NoType"
  shows "place (lift (place (lift b f) t p) t) f (mailbox b f) = b"
  using assms
  by (intro board_ext) (auto simp add: board_ok_place board_ok_lift fun_eq_iff)

lemma board_rt_capture:
  assumes "board_ok b" "f < 64" "t < 64" "f \<noteq> t" "ptype (mailbox b f) \<noteq> NoType"
    "ptype (mailbox b t) \<noteq> NoType" "ptype p \<noteq> NoType"
  shows "place (place (lift (place (lift (lift b f) t) t p) t) f (mailbox b f)) t (mailbox b t) = b"
  using assms
  by (intro board_ext) (auto simp add: board_ok_place board_ok_lift fun_eq_iff)

lemma board_rt_ep:
  assumes "board_ok b" "f < 64" "t < 64" "cs < 64" "f \<noteq> t" "cs \<noteq> f"
    "ptype (mailbox b f) \<noteq> NoType" "mailbox b t = kNoPiece"
    "ptype (mailbox b cs) \<noteq> NoType" "ptype p \<noteq> NoType"
  shows "place (place (lift (place (lift (lift b f) cs) t p) t) f (mailbox b f)) cs (mailbox b cs) = b"
proof -
  from assms have "cs \<noteq> t" by auto
  with assms show ?thesis
    by (intro board_ext) (auto simp add: board_ok_place board_ok_lift fun_eq_iff)
qed

lemma board_rt_castle:
  assumes "board_ok b" "f < 64" "t < 64" "rf < 64" "rt < 64"
    "f \<noteq> t" "f \<noteq> rf" "f \<noteq> rt" "t \<noteq> rf" "t \<noteq> rt" "rf \<noteq> rt"
    "ptype (mailbox b f) \<noteq> NoType" "ptype (mailbox b rf) \<noteq> NoType"
    "mailbox b t = kNoPiece" "mailbox b rt = kNoPiece"
  shows "place (lift (place (lift (place (lift (place (lift b f) t (mailbox b f)) rf) rt (mailbox b rf)) t) f (mailbox b f)) rt) rf (mailbox b rf) = b"
  using assms
  by (intro board_ext) (auto simp add: board_ok_place board_ok_lift fun_eq_iff)

lemmas board_rt = board_rt_quiet board_rt_capture board_rt_ep board_rt_castle

lemma unmake_made:
  assumes v: "valid_position pos" and ok: "move_ok pos m"
  shows "unmake_move (made pos m) m = Some pos"
proof -
  obtain f t fl pr where m: "m = Move f t fl pr" by (cases m)
  from ok m have f: "f < 64" and t: "t < 64" and ft: "f \<noteq> t"
    and pf: "ptype (mailbox (board pos) f) \<noteq> NoType"
    by (auto simp: move_ok_def)
  from v have bok: "board_ok (board pos)" and ep: "en_passant pos \<le> 64"
    by (auto simp: valid_position_def ep_ok_def)
  note defs = unmake_move_def made_def board_after_def key_after_def capture_square_def
    placed_piece_def rook_squares_def ep_after_def castling_after_def
  note simps = pos_steps Let_def kNoSquare_def if_upd_fullmove
    board_ok_NoType[OF bok] board_rt bok
  show ?thesis
  proof (cases fl)
    case Normal
    show ?thesis
      using f t ft pf
      by (cases "mailbox (board pos) t = kNoPiece") (simp_all add: defs m Normal simps)
  next
    case DoublePawn
    show ?thesis
      using f t ft pf
      by (cases "mailbox (board pos) t = kNoPiece") (simp_all add: defs m DoublePawn simps)
  next
    case EnPassant
    from ok m EnPassant have c: "make_square (file_of t) (rank_of f) < 64"
       "make_square (file_of t) (rank_of f) \<noteq> f" "mailbox (board pos) t = kNoPiece"
      by (auto simp add: move_ok_def)
    then show ?thesis
      using f t ft pf
      by (cases "mailbox (board pos) (make_square (file_of t) (rank_of f)) = kNoPiece")
        (auto simp add: defs m EnPassant simps)
  next
    case CastleKingside
    show ?thesis
    proof (cases "side_to_move pos")
      case White
      with ok m CastleKingside have c: "f = 4" "t = 6" "mailbox (board pos) 6 = kNoPiece"
        "mailbox (board pos) 5 = kNoPiece" "ptype (mailbox (board pos) 7) \<noteq> NoType"
        by (auto simp add: move_ok_def king_home_def)
      then show ?thesis
        using pf White
        by (simp add: defs m CastleKingside simps rank_of_def make_square_def)
    next
      case Black
      with ok m CastleKingside have c: "f = 60" "t = 62" "mailbox (board pos) 62 = kNoPiece"
        "mailbox (board pos) 61 = kNoPiece" "ptype (mailbox (board pos) 63) \<noteq> NoType"
        by (auto simp add: move_ok_def king_home_def)
      then show ?thesis
        using pf Black
        by (simp add: defs m CastleKingside simps rank_of_def make_square_def)
    qed
  next
    case CastleQueenside
    show ?thesis
    proof (cases "side_to_move pos")
      case White
      with ok m CastleQueenside have c: "f = 4" "t = 2" "mailbox (board pos) 2 = kNoPiece"
        "mailbox (board pos) 3 = kNoPiece" "ptype (mailbox (board pos) 0) \<noteq> NoType"
        by (auto simp add: move_ok_def king_home_def)
      then show ?thesis
        using pf White
        by (simp add: defs m CastleQueenside simps rank_of_def make_square_def)
    next
      case Black
      with ok m CastleQueenside have c: "f = 60" "t = 58" "mailbox (board pos) 58 = kNoPiece"
        "mailbox (board pos) 59 = kNoPiece" "ptype (mailbox (board pos) 56) \<noteq> NoType"
        by (auto simp add: move_ok_def king_home_def)
      then show ?thesis
        using pf Black
        by (simp add: defs m CastleQueenside simps rank_of_def make_square_def)
    qed
  next
    case Promotion
    from ok m Promotion have c: "pr \<noteq> NoType" "ptype (mailbox (board pos) f) = Pawn"
      by (auto simp add: move_ok_def)
    then have pw: "Piece (color (mailbox (board pos) f)) Pawn = mailbox (board pos) f"
      by (cases "mailbox (board pos) f") simp
    have rt1: "mailbox (board pos) t = kNoPiece \<Longrightarrow>
       place (lift (place (lift (board pos) f) t (Piece (color (mailbox (board pos) f)) pr)) t) f
         (Piece (color (mailbox (board pos) f)) Pawn) = board pos"
      unfolding pw using bok f t ft pf c by (intro board_rt_quiet) simp_all
    have rt2: "mailbox (board pos) t \<noteq> kNoPiece \<Longrightarrow>
       place (place (lift (place (lift (lift (board pos) f) t) t (Piece (color (mailbox (board pos) f)) pr)) t) f
         (Piece (color (mailbox (board pos) f)) Pawn)) t (mailbox (board pos) t) = board pos"
      unfolding pw using bok f t ft pf c by (intro board_rt_capture) (simp_all add: board_ok_NoType)
    show ?thesis
      using f t ft pf c rt1 rt2
      by (cases "mailbox (board pos) t = kNoPiece") (simp_all add: defs m Promotion simps)
  qed
qed

section \<open>Moves of the pieces\<close>

lemma those_map_Some:
  "those (map f xs) = Some ys \<Longrightarrow> y \<in> set ys \<Longrightarrow> \<exists>x\<in>set xs. f x = Some y"
proof (induction xs arbitrary: ys)
  case Nil
  then show ?case by simp
next
  case (Cons x xs)
  then show ?case by (auto split: option.splits)
qed

lemma bb_squares_lt: "sq \<in> set (bb_squares b) \<Longrightarrow> sq < 64"
  by (drule bb_squares_sound) (rule bit_lt_64)

lemma mailbox_of_pieces:
  "board_ok b \<Longrightarrow> bit (pieces b c t) sq \<Longrightarrow> mailbox b sq = Piece c t \<and> t \<noteq> NoType \<and> sq < 64"
  by (cases "t = NoType") (auto simp: board_ok_def)

lemma empty_of_occupied_all:
  "board_ok b \<Longrightarrow> sq < 64 \<Longrightarrow> \<not> bit (occupied_all b) sq \<Longrightarrow> mailbox b sq = kNoPiece"
  by (auto simp: board_ok_def)

lemma gen_piece_moves_ok:
  assumes v: "valid_position pos" and g: "gen_piece_moves pos pt = Some ms" and m: "m \<in> set ms"
  shows "move_ok pos m \<and> flag m = Normal"
proof -
  let ?b = "board pos" and ?us = "side_to_move pos"
  from v have bok: "board_ok ?b" by (simp add: valid_position_def)
  let ?f = "\<lambda>from. do {
              attacks \<leftarrow> attacks_from pt from (occupied_all ?b);
              Some (map (\<lambda>to. Move from to Normal NoType)
                     (bb_squares (attacks AND NOT (occupied ?b ?us)))) }"
  from g obtain mss where mss: "those (map ?f (bb_squares (pieces ?b ?us pt))) = Some mss"
    and ms: "ms = concat mss"
    by (auto simp: gen_piece_moves_def Let_def)
  from m ms obtain l where l: "l \<in> set mss" "m \<in> set l" by auto
  from those_map_Some[OF mss l(1)] obtain fr where fr: "fr \<in> set (bb_squares (pieces ?b ?us pt))"
    and fl: "?f fr = Some l" by blast
  from fl obtain att where l': "l = map (\<lambda>to. Move fr to Normal NoType)
                     (bb_squares (att AND NOT (occupied ?b ?us)))"
    by (auto simp: bind_eq_Some_conv)
  from l(2) l' obtain to where to: "to \<in> set (bb_squares (att AND NOT (occupied ?b ?us)))"
    and me: "m = Move fr to Normal NoType" by auto
  from bb_squares_sound[OF fr] bok have mf: "mailbox ?b fr = Piece ?us pt" "pt \<noteq> NoType" "fr < 64"
    using mailbox_of_pieces by blast+
  from bb_squares_sound[OF to] have nt: "\<not> bit (occupied ?b ?us) to" and t64: "to < 64"
    by (auto simp: bit_simps dest: bit_lt_64)
  from mf bok have "bit (occupied ?b ?us) fr" by (simp add: board_ok_def)
  with nt have "fr \<noteq> to" by auto
  with mf t64 me show ?thesis by (simp add: move_ok_def)
qed

lemma to_Square_minus: "n \<le> to \<Longrightarrow> to < 256 \<Longrightarrow> to_Square (int to - int n) = to - n"
  by (simp add: to_Square_def nat_diff_distrib' flip: of_nat_diff)

lemma to_Square_plus: "to + n < 256 \<Longrightarrow> to_Square (int to + int n) = to + n"
  by (simp add: to_Square_def flip: of_nat_add)

lemma in_add_promotions:
  "m \<in> set (add_promotions f t) \<Longrightarrow>
     from_sq m = f \<and> to_sq m = t \<and> flag m = Promotion \<and> promotion m \<in> {Queen, Rook, Bishop, Knight}"
  by (auto simp: add_promotions_def kPromotions_def)

section \<open>Geometry of pawn moves\<close>

lemma pawn_origin:
  assumes bok: "board_ok b" and t: "to < 64" and d: "0 < dw" "0 < db"
    and w: "us = White \<Longrightarrow> dw \<le> to \<and> bit (pieces b us Pawn) (to - dw)"
    and bl: "us = Black \<Longrightarrow> bit (pieces b us Pawn) (to + db)"
  shows "from_of us to (int dw) (int db) < 64 \<and> from_of us to (int dw) (int db) \<noteq> to
         \<and> mailbox b (from_of us to (int dw) (int db)) = Piece us Pawn \<and> to < 64"
proof (cases us)
  case White
  with w have le: "dw \<le> to" and bt: "bit (pieces b us Pawn) (to - dw)" by auto
  from le t have e: "from_of us to (int dw) (int db) = to - dw"
    by (simp add: from_of_def White to_Square_minus)
  from mailbox_of_pieces[OF bok bt] d le t show ?thesis unfolding e using White by auto
next
  case Black
  with bl have bt: "bit (pieces b us Pawn) (to + db)" by auto
  then have "to + db < 64" by (rule bit_lt_64)
  then have e: "from_of us to (int dw) (int db) = to + db"
    by (simp add: from_of_def Black to_Square_plus)
  from mailbox_of_pieces[OF bok bt] d t show ?thesis unfolding e using Black by auto
qed

lemma mod8_shift: "(n + 9) mod 8 \<noteq> n mod 8" "(n + 7) mod 8 \<noteq> n mod (8::nat)"
proof -
  have s: "Suc k mod 8 \<noteq> k mod 8" for k :: nat by (simp add: mod_Suc)
  have "n + 9 = Suc n + 8" by simp
  then have "(n + 9) mod 8 = Suc n mod 8" by (simp only: mod_add_self2)
  then show "(n + 9) mod 8 \<noteq> n mod 8" using s[of n] by simp
  have "Suc (n + 7) = n + 8" by simp
  then have "Suc (n + 7) mod 8 = n mod 8" by (simp only: mod_add_self2)
  then show "(n + 7) mod 8 \<noteq> n mod 8" using s[of "n + 7"] by simp
qed

lemma rank_step:
  fixes e :: nat
  shows "e mod 8 \<noteq> 7 \<Longrightarrow> (e + 9) div 8 = e div 8 + 1"
    and "e mod 8 \<noteq> 0 \<Longrightarrow> (e + 7) div 8 = e div 8 + 1"
    and "(e + 9) mod 8 \<noteq> 0 \<Longrightarrow> (e + 9) div 8 = e div 8 + 1"
    and "(e + 7) mod 8 \<noteq> 7 \<Longrightarrow> (e + 7) div 8 = e div 8 + 1"
proof -
  obtain q r where e: "e = 8 * q + r" and r: "r < 8"
    using mod_less_divisor[of 8 e] div_mult_mod_eq[of e 8] by (metis mult.commute zero_less_numeral)
  from r have rs: "r = 0 \<or> r = 1 \<or> r = 2 \<or> r = 3 \<or> r = 4 \<or> r = 5 \<or> r = 6 \<or> r = 7" by linarith
  show "e mod 8 \<noteq> 7 \<Longrightarrow> (e + 9) div 8 = e div 8 + 1"
    using rs unfolding e by (elim disjE) simp_all
  show "e mod 8 \<noteq> 0 \<Longrightarrow> (e + 7) div 8 = e div 8 + 1"
    using rs unfolding e by (elim disjE) simp_all
  show "(e + 9) mod 8 \<noteq> 0 \<Longrightarrow> (e + 9) div 8 = e div 8 + 1"
    using rs unfolding e by (elim disjE) simp_all
  show "(e + 7) mod 8 \<noteq> 7 \<Longrightarrow> (e + 7) div 8 = e div 8 + 1"
    using rs unfolding e by (elim disjE) simp_all
qed

lemma pawn_attacks_geometry:
  assumes "bit (pawn_attacks c ep) n"
  shows "file_of n \<noteq> file_of ep"
    and "rank_of n = rank_of ep + 1 \<or> rank_of ep = rank_of n + 1"
proof -
  have "file_of n \<noteq> file_of ep \<and> (rank_of n = rank_of ep + 1 \<or> rank_of ep = rank_of n + 1)"
  proof (cases c)
    case White
    with assms have "bit (shift_ne (square_bb ep)) n \<or> bit (shift_nw (square_bb ep)) n"
      by (simp add: pawn_attacks_def Let_def bit_simps)
    then have "(9 \<le> n \<and> n - 9 = ep \<and> n mod 8 \<noteq> 0) \<or> (7 \<le> n \<and> n - 7 = ep \<and> n mod 8 \<noteq> 7)"
      by (auto dest!: bit_shift_ne bit_shift_nw simp: bit_square_bb)
    then have "(n = ep + 9 \<and> (ep + 9) mod 8 \<noteq> 0) \<or> (n = ep + 7 \<and> (ep + 7) mod 8 \<noteq> 7)" by auto
    then show ?thesis
      using mod8_shift[of ep] rank_step(3,4)[of ep] by (auto simp: file_of_def rank_of_def)
  next
    case Black
    with assms have "bit (shift_se (square_bb ep)) n \<or> bit (shift_sw (square_bb ep)) n"
      by (simp add: pawn_attacks_def Let_def bit_simps)
    then have "(ep = n + 7 \<and> n mod 8 \<noteq> 0) \<or> (ep = n + 9 \<and> n mod 8 \<noteq> 7)"
      by (auto dest!: bit_shift_se bit_shift_sw simp: bit_square_bb)
    then show ?thesis
      using mod8_shift[of n] rank_step(1,2)[of n] by (auto simp: file_of_def rank_of_def)
  qed
  then show "file_of n \<noteq> file_of ep"
    and "rank_of n = rank_of ep + 1 \<or> rank_of ep = rank_of n + 1" by simp_all
qed

lemma make_square_file_rank:
  "sq < 64 \<Longrightarrow> make_square (file_of sq) (rank_of sq) = sq"
  by (simp add: make_square_def file_of_def rank_of_def)

lemma make_square_other_file:
  assumes "fr < 64" "file_of t \<noteq> file_of fr"
  shows "make_square (file_of t) (rank_of fr) < 64" "make_square (file_of t) (rank_of fr) \<noteq> fr"
proof -
  have "fr div 8 < 8" using assms(1) by (simp add: less_mult_imp_div_less)
  moreover have "t mod 8 < 8" by simp
  ultimately have lt: "rank_of fr * 8 + file_of t < 64"
    unfolding rank_of_def file_of_def by linarith
  then show "make_square (file_of t) (rank_of fr) < 64" by (simp add: make_square_def)
  have "file_of (rank_of fr * 8 + file_of t) = file_of t" by (simp add: file_of_def)
  with assms(2) lt show "make_square (file_of t) (rank_of fr) \<noteq> fr"
    by (auto simp add: make_square_def)
qed

section \<open>Moves of the pawns\<close>

lemma mid_white:
  assumes "8 \<le> f" "f < 16"
  shows "make_square (file_of f) ((rank_of f + rank_of (f + 16)) div 2) = f + 8"
proof -
  from assms have "f = 8 \<or> f = 9 \<or> f = 10 \<or> f = 11 \<or> f = 12 \<or> f = 13 \<or> f = 14 \<or> f = 15"
    by linarith
  then show ?thesis
    by (elim disjE) (simp_all add: make_square_def file_of_def rank_of_def)
qed

lemma mid_black:
  assumes "48 \<le> f" "f < 56"
  shows "make_square (file_of f) ((rank_of f + rank_of (f - 16)) div 2) = f - 8"
proof -
  from assms have "f = 48 \<or> f = 49 \<or> f = 50 \<or> f = 51 \<or> f = 52 \<or> f = 53 \<or> f = 54 \<or> f = 55"
    by linarith
  then show ?thesis
    by (elim disjE) (simp_all add: make_square_def file_of_def rank_of_def)
qed

lemma gen_pawn_moves_ok:
  assumes v: "valid_position pos" and g: "gen_pawn_moves pos = Some ms" and m: "m \<in> set ms"
  shows "move_ok pos m \<and> flag m \<in> {Normal, DoublePawn, EnPassant, Promotion}"
proof -
  define b where "b = board pos"
  define us where "us = side_to_move pos"
  define pawns where "pawns = pieces b us Pawn"
  define empty where "empty = NOT (occupied_all b)"
  define enemy where "enemy = occupied b (opposite us)"
  define promo_rank where "promo_rank = (if us = White then kRank8 else kRank1)"
  define single where "single = (if us = White then shift_north pawns AND empty
                    else shift_south pawns AND empty)"
  define mid_rank where "mid_rank = (if us = White then kRank3 else kRank6)"
  define dbl where "dbl = (if us = White then shift_north (single AND mid_rank) AND empty
                 else shift_south (single AND mid_rank) AND empty)"
  define cap_l where "cap_l = (if us = White then shift_nw pawns else shift_sw pawns) AND enemy"
  define cap_r where "cap_r = (if us = White then shift_ne pawns else shift_se pawns) AND enemy"
  define ep_moves where "ep_moves = map (\<lambda>from. Move from (en_passant pos) EnPassant NoType)
                              (bb_squares (pawn_attacks (opposite us) (en_passant pos) AND pawns))"
  note defs = b_def us_def pawns_def empty_def enemy_def promo_rank_def single_def mid_rank_def
    dbl_def cap_l_def cap_r_def ep_moves_def
  from v have bok: "board_ok b" and epok: "ep_ok pos" by (simp_all add: valid_position_def b_def)
  have single: "to < 64 \<and> mailbox b to = kNoPiece \<and> (us = White \<longrightarrow> 8 \<le> to \<and> bit pawns (to - 8))
      \<and> (us = Black \<longrightarrow> bit pawns (to + 8))" if "bit single to" for to
  proof -
    from that have "to < 64" by (rule bit_lt_64)
    moreover from that have "\<not> bit (occupied_all b) to"
      by (auto simp: single_def empty_def bit_simps split: if_splits)
    moreover from that have "us = White \<longrightarrow> 8 \<le> to \<and> bit pawns (to - 8)"
      by (auto simp: single_def bit_simps bit_shift_north)
    moreover from that have "us = Black \<longrightarrow> bit pawns (to + 8)"
      by (auto simp: single_def bit_simps bit_shift_south)
    ultimately show ?thesis using empty_of_occupied_all[OF bok] by blast
  qed
  have o8: "from_of us to 8 8 < 64 \<and> from_of us to 8 8 \<noteq> to
         \<and> mailbox b (from_of us to 8 8) = Piece us Pawn \<and> to < 64" if "bit single to" for to
  proof -
    from single[OF that] have t: "to < 64"
      and w: "us = White \<Longrightarrow> 8 \<le> to \<and> bit (pieces b us Pawn) (to - 8)"
      and bl: "us = Black \<Longrightarrow> bit (pieces b us Pawn) (to + 8)"
      by (auto simp: pawns_def)
    from pawn_origin[OF bok t _ _ w bl] show ?thesis by simp
  qed
  have capl: "from_of us to 7 9 < 64 \<and> from_of us to 7 9 \<noteq> to
         \<and> mailbox b (from_of us to 7 9) = Piece us Pawn \<and> to < 64" if "bit cap_l to" for to
  proof -
    from that have t: "to < 64" by (rule bit_lt_64)
    from that have w: "us = White \<Longrightarrow> 7 \<le> to \<and> bit (pieces b us Pawn) (to - 7)"
      by (auto simp: cap_l_def bit_simps pawns_def dest: bit_shift_nw)
    from that have bl: "us = Black \<Longrightarrow> bit (pieces b us Pawn) (to + 9)"
      by (auto simp: cap_l_def bit_simps pawns_def dest: bit_shift_sw)
    from pawn_origin[OF bok t _ _ w bl] show ?thesis by simp
  qed
  have capr: "from_of us to 9 7 < 64 \<and> from_of us to 9 7 \<noteq> to
         \<and> mailbox b (from_of us to 9 7) = Piece us Pawn \<and> to < 64" if "bit cap_r to" for to
  proof -
    from that have t: "to < 64" by (rule bit_lt_64)
    from that have w: "us = White \<Longrightarrow> 9 \<le> to \<and> bit (pieces b us Pawn) (to - 9)"
      by (auto simp: cap_r_def bit_simps pawns_def dest: bit_shift_ne)
    from that have bl: "us = Black \<Longrightarrow> bit (pieces b us Pawn) (to + 7)"
      by (auto simp: cap_r_def bit_simps pawns_def dest: bit_shift_se)
    from pawn_origin[OF bok t _ _ w bl] show ?thesis by simp
  qed
  have dbl: "move_ok pos (Move (from_of us to 16 16) to DoublePawn NoType)" if "bit dbl to" for to
  proof (cases us)
    case White
    from that White have t8: "8 \<le> to" "to < 64" and s: "bit single (to - 8)"
      and r: "16 \<le> to - 8" "to - 8 < 24"
      by (auto simp: dbl_def mid_rank_def bit_simps bit_shift_north bit_kRank3)
    from single[OF s] White have p: "bit pawns (to - 8 - 8)" and e: "mailbox b (to - 8) = kNoPiece"
      by auto
    from r have fr: "from_of us to 16 16 = to - 16"
      using to_Square_minus[of 16 to] t8 by (simp add: from_of_def White)
    from mailbox_of_pieces[OF bok p[unfolded pawns_def]] have mf: "mailbox b (to - 16) = Piece us Pawn"
      by simp
    have "make_square (file_of (to - 16)) ((rank_of (to - 16) + rank_of to) div 2) = to - 8"
      using mid_white[of "to - 16"] r by simp
    moreover from r t8 have "to - 16 < 64" "to - 16 \<noteq> to" "to - 8 \<noteq> to - 16" "to - 8 \<noteq> to"
      "to - 8 < 64" by linarith+
    moreover from r have "(to - 8) div 8 = 2" by (intro div_nat_eqI) simp_all
    ultimately show ?thesis
      using mf e t8 unfolding fr by (simp add: move_ok_def b_def rank_of_def)
  next
    case Black
    from that Black have s: "bit single (to + 8)"
      and r: "40 \<le> to + 8" "to + 8 < 48"
      by (auto simp: dbl_def mid_rank_def bit_simps bit_shift_south bit_kRank6)
    from single[OF s] Black have p: "bit pawns (to + 8 + 8)" and e: "mailbox b (to + 8) = kNoPiece"
      by auto
    from r have fr: "from_of us to 16 16 = to + 16"
      using to_Square_plus[of to 16] by (simp add: from_of_def Black)
    from mailbox_of_pieces[OF bok p[unfolded pawns_def]] have mf: "mailbox b (to + 16) = Piece us Pawn"
      by (simp add: add.assoc)
    have "make_square (file_of (to + 16)) ((rank_of (to + 16) + rank_of to) div 2) = to + 8"
      using mid_black[of "to + 16"] r by simp
    moreover from r have "to + 16 < 64" "to + 16 \<noteq> to" "to + 8 \<noteq> to + 16" "to + 8 \<noteq> to"
      "to + 8 < 64" "to < 64" by linarith+
    moreover from r have "(to + 8) div 8 = 5" by (intro div_nat_eqI) simp_all
    ultimately show ?thesis
      using mf e unfolding fr by (simp add: move_ok_def b_def rank_of_def)
  qed
  have epm: "move_ok pos m" if "m \<in> set ep_moves" "en_passant pos < 64" for m
  proof -
    from that obtain fr where fr: "fr \<in> set (bb_squares (pawn_attacks (opposite us) (en_passant pos) AND pawns))"
      and me: "m = Move fr (en_passant pos) EnPassant NoType"
      by (auto simp: ep_moves_def)
    from bb_squares_sound[OF fr] have a: "bit (pawn_attacks (opposite us) (en_passant pos)) fr"
      and p: "bit (pieces b us Pawn) fr" by (auto simp: bit_simps pawns_def)
    from mailbox_of_pieces[OF bok p] have mf: "mailbox b fr = Piece us Pawn" "fr < 64" by auto
    from epok that(2) have ee: "mailbox b (en_passant pos) = kNoPiece" by (simp add: ep_ok_def b_def)
    with mf have ne: "fr \<noteq> en_passant pos" by (auto simp: kNoPiece_def)
    from pawn_attacks_geometry(1)[OF a] have "file_of (en_passant pos) \<noteq> file_of fr" by simp
    from make_square_other_file[OF mf(2) this] mf ee ne that(2) pawn_attacks_geometry(2)[OF a]
    show ?thesis
      by (simp add: move_ok_def me b_def)
  qed
  have normal: "move_ok pos (Move fr to Normal NoType)"
    if "fr < 64 \<and> fr \<noteq> to \<and> mailbox b fr = Piece us Pawn \<and> to < 64" for fr to
    using that by (simp add: move_ok_def b_def)
  have promo: "move_ok pos m \<and> flag m = Promotion"
    if "fr < 64 \<and> fr \<noteq> to \<and> mailbox b fr = Piece us Pawn \<and> to < 64" "m \<in> set (add_promotions fr to)" for fr to m
    using that in_add_promotions[OF that(2)] by (auto simp add: move_ok_def b_def)
  from g have ms: "ms = map (\<lambda>to. Move (from_of us to 8 8) to Normal NoType) (bb_squares (single AND NOT promo_rank))
      @ concat (map (\<lambda>to. add_promotions (from_of us to 8 8) to) (bb_squares (single AND promo_rank)))
      @ map (\<lambda>to. Move (from_of us to 16 16) to DoublePawn NoType) (bb_squares dbl)
      @ map (\<lambda>to. Move (from_of us to 7 9) to Normal NoType) (bb_squares (cap_l AND NOT promo_rank))
      @ concat (map (\<lambda>to. add_promotions (from_of us to 7 9) to) (bb_squares (cap_l AND promo_rank)))
      @ map (\<lambda>to. Move (from_of us to 9 7) to Normal NoType) (bb_squares (cap_r AND NOT promo_rank))
      @ concat (map (\<lambda>to. add_promotions (from_of us to 9 7) to) (bb_squares (cap_r AND promo_rank)))
      @ (if en_passant pos \<noteq> kNoSquare then ep_moves else [])"
    and epr: "en_passant pos \<noteq> kNoSquare \<longrightarrow> en_passant pos < 64"
    unfolding gen_pawn_moves_def Let_def defs
    by (auto split: if_splits simp: bind_eq_Some_conv)
  from m consider
      (1) to where "to \<in> set (bb_squares (single AND NOT promo_rank))" "m = Move (from_of us to 8 8) to Normal NoType"
    | (2) to where "to \<in> set (bb_squares (single AND promo_rank))" "m \<in> set (add_promotions (from_of us to 8 8) to)"
    | (3) to where "to \<in> set (bb_squares dbl)" "m = Move (from_of us to 16 16) to DoublePawn NoType"
    | (4) to where "to \<in> set (bb_squares (cap_l AND NOT promo_rank))" "m = Move (from_of us to 7 9) to Normal NoType"
    | (5) to where "to \<in> set (bb_squares (cap_l AND promo_rank))" "m \<in> set (add_promotions (from_of us to 7 9) to)"
    | (6) to where "to \<in> set (bb_squares (cap_r AND NOT promo_rank))" "m = Move (from_of us to 9 7) to Normal NoType"
    | (7) to where "to \<in> set (bb_squares (cap_r AND promo_rank))" "m \<in> set (add_promotions (from_of us to 9 7) to)"
    | (8) "m \<in> set ep_moves" "en_passant pos \<noteq> kNoSquare"
    unfolding ms by (auto split: if_splits)
  then show ?thesis
  proof cases
    case 1
    from bb_squares_sound[OF 1(1)] have "bit single to" by (simp add: bit_simps)
    from normal[OF o8[OF this]] 1(2) show ?thesis by simp
  next
    case 2
    from bb_squares_sound[OF 2(1)] have "bit single to" by (simp add: bit_simps)
    from promo[OF o8[OF this] 2(2)] show ?thesis by simp
  next
    case 3
    from dbl[OF bb_squares_sound[OF 3(1)]] 3(2) show ?thesis by simp
  next
    case 4
    from bb_squares_sound[OF 4(1)] have "bit cap_l to" by (simp add: bit_simps)
    from normal[OF capl[OF this]] 4(2) show ?thesis by simp
  next
    case 5
    from bb_squares_sound[OF 5(1)] have "bit cap_l to" by (simp add: bit_simps)
    from promo[OF capl[OF this] 5(2)] show ?thesis by simp
  next
    case 6
    from bb_squares_sound[OF 6(1)] have "bit cap_r to" by (simp add: bit_simps)
    from normal[OF capr[OF this]] 6(2) show ?thesis by simp
  next
    case 7
    from bb_squares_sound[OF 7(1)] have "bit cap_r to" by (simp add: bit_simps)
    from promo[OF capr[OF this] 7(2)] show ?thesis by simp
  next
    case 8
    with epr have "en_passant pos < 64" by simp
    from epm[OF 8(1) this] 8(1) show ?thesis by (auto simp: ep_moves_def)
  qed
qed

section \<open>The moves of the pseudo-legal list\<close>

lemma and_also_True: "and_also a b = Some True \<longleftrightarrow> a = Some True \<and> b = Some True"
  by (auto simp: and_also_def split: option.splits bool.splits)

lemma is_empty_True:
  "board_ok b \<Longrightarrow> is_empty b sq = Some True \<Longrightarrow> sq < 64 \<and> mailbox b sq = kNoPiece"
  by (auto simp: is_empty_def board_ok_def split: if_splits)

lemma king_square_home:
  assumes bok: "board_ok b" and u: "\<forall>sq. mailbox b sq = Piece c King \<longleftrightarrow> sq = king_home c"
  shows "king_square b c = king_home c"
proof -
  have h: "king_home c < 64" by (cases c) (simp_all add: king_home_def)
  with bok u have "bit (pieces b c King) (king_home c)" by (simp add: board_ok_def)
  then have "pieces b c King \<noteq> 0" by auto
  from lsb_props(2)[OF this] bok have "mailbox b (lsb (pieces b c King)) = Piece c King"
    by (simp add: board_ok_def)
  with u show ?thesis by (simp add: king_square_def)
qed

lemma make_square_consts:
  "make_square 5 0 = 5" "make_square 6 0 = 6" "make_square 1 0 = 1" "make_square 2 0 = 2"
  "make_square 3 0 = 3" "make_square 5 7 = 61" "make_square 6 7 = 62" "make_square 1 7 = 57"
  "make_square 2 7 = 58" "make_square 3 7 = 59"
  by (simp_all add: make_square_def)

lemma gen_castling_ok:
  assumes v: "valid_position pos" and g: "gen_castling pos = Some ms" and m: "m \<in> set ms"
  shows "move_ok pos m"
proof -
  let ?b = "board pos" and ?us = "side_to_move pos"
  from v have bok: "board_ok ?b" and cok: "castling_ok pos" by (simp_all add: valid_position_def)
  let ?ks = "if ?us = White then kWhiteKingside else kBlackKingside"
  let ?qs = "if ?us = White then kWhiteQueenside else kBlackQueenside"
  let ?rank = "if ?us = White then 0 else 7 :: nat"
  let ?k = "king_square ?b ?us"
  from g m consider
    (K) "castling pos AND ?ks \<noteq> 0" "m = Move ?k (make_square 6 ?rank) CastleKingside NoType"
        "is_empty ?b (make_square 5 ?rank) = Some True" "is_empty ?b (make_square 6 ?rank) = Some True"
  | (Q) "castling pos AND ?qs \<noteq> 0" "m = Move ?k (make_square 2 ?rank) CastleQueenside NoType"
        "is_empty ?b (make_square 1 ?rank) = Some True" "is_empty ?b (make_square 2 ?rank) = Some True"
        "is_empty ?b (make_square 3 ?rank) = Some True"
    unfolding gen_castling_def Let_def
    by (auto simp: bind_eq_Some_conv and_also_True split: if_splits)
  then show ?thesis
  proof cases
    case K
    show ?thesis
    proof (cases ?us)
      case White
      with K(1) cok have u: "\<forall>sq. mailbox ?b sq = Piece White King \<longleftrightarrow> sq = king_home White"
        and r: "mailbox ?b 7 = Piece White Rook"
        by (auto simp: castling_ok_def side_ok_def)
      from king_square_home[OF bok u] have k: "king_square ?b White = 4" by (simp add: king_home_def)
      from u have kp: "mailbox ?b 4 = Piece White King" by (simp add: king_home_def)
      from K(3) White have "is_empty ?b (make_square 5 0) = Some True" by simp
      from is_empty_True[OF bok this] have e1: "mailbox ?b 5 = kNoPiece"
        by (simp add: make_square_consts)
      from K(4) White have "is_empty ?b (make_square 6 0) = Some True" by simp
      from is_empty_True[OF bok this] have e2: "mailbox ?b 6 = kNoPiece"
        by (simp add: make_square_consts)
      note e1 e2
      with r kp show ?thesis
        by (simp add: move_ok_def K(2) k White king_home_def make_square_consts)
    next
      case Black
      with K(1) cok have u: "\<forall>sq. mailbox ?b sq = Piece Black King \<longleftrightarrow> sq = king_home Black"
        and r: "mailbox ?b 63 = Piece Black Rook"
        by (auto simp: castling_ok_def side_ok_def)
      from king_square_home[OF bok u] have k: "king_square ?b Black = 60" by (simp add: king_home_def)
      from u have kp: "mailbox ?b 60 = Piece Black King" by (simp add: king_home_def)
      from K(3) Black have "is_empty ?b (make_square 5 7) = Some True" by simp
      from is_empty_True[OF bok this] have e1: "mailbox ?b 61 = kNoPiece"
        by (simp add: make_square_consts)
      from K(4) Black have "is_empty ?b (make_square 6 7) = Some True" by simp
      from is_empty_True[OF bok this] have e2: "mailbox ?b 62 = kNoPiece"
        by (simp add: make_square_consts)
      note e1 e2
      with r kp show ?thesis
        by (simp add: move_ok_def K(2) k Black king_home_def make_square_consts)
    qed
  next
    case Q
    show ?thesis
    proof (cases ?us)
      case White
      with Q(1) cok have u: "\<forall>sq. mailbox ?b sq = Piece White King \<longleftrightarrow> sq = king_home White"
        and r: "mailbox ?b 0 = Piece White Rook"
        by (auto simp: castling_ok_def side_ok_def)
      from king_square_home[OF bok u] have k: "king_square ?b White = 4" by (simp add: king_home_def)
      from u have kp: "mailbox ?b 4 = Piece White King" by (simp add: king_home_def)
      from Q(4) White have "is_empty ?b (make_square 2 0) = Some True" by simp
      from is_empty_True[OF bok this] have e1: "mailbox ?b 2 = kNoPiece"
        by (simp add: make_square_consts)
      from Q(5) White have "is_empty ?b (make_square 3 0) = Some True" by simp
      from is_empty_True[OF bok this] have e2: "mailbox ?b 3 = kNoPiece"
        by (simp add: make_square_consts)
      note e1 e2
      with r kp show ?thesis
        by (simp add: move_ok_def Q(2) k White king_home_def make_square_consts)
    next
      case Black
      with Q(1) cok have u: "\<forall>sq. mailbox ?b sq = Piece Black King \<longleftrightarrow> sq = king_home Black"
        and r: "mailbox ?b 56 = Piece Black Rook"
        by (auto simp: castling_ok_def side_ok_def)
      from king_square_home[OF bok u] have k: "king_square ?b Black = 60" by (simp add: king_home_def)
      from u have kp: "mailbox ?b 60 = Piece Black King" by (simp add: king_home_def)
      from Q(4) Black have "is_empty ?b (make_square 2 7) = Some True" by simp
      from is_empty_True[OF bok this] have e1: "mailbox ?b 58 = kNoPiece"
        by (simp add: make_square_consts)
      from Q(5) Black have "is_empty ?b (make_square 3 7) = Some True" by simp
      from is_empty_True[OF bok this] have e2: "mailbox ?b 59 = kNoPiece"
        by (simp add: make_square_consts)
      note e1 e2
      with r kp show ?thesis
        by (simp add: move_ok_def Q(2) k Black king_home_def make_square_consts)
    qed
  qed
qed

lemma pseudo_legal_ok:
  assumes v: "valid_position pos" and g: "pseudo_legal pos = Some ms" and m: "m \<in> set ms"
  shows "move_ok pos m"
proof -
  from g obtain pawn knight bishop rook queen king castle where
    p: "gen_pawn_moves pos = Some pawn" "gen_piece_moves pos Knight = Some knight"
       "gen_piece_moves pos Bishop = Some bishop" "gen_piece_moves pos Rook = Some rook"
       "gen_piece_moves pos Queen = Some queen" "gen_piece_moves pos King = Some king"
       "gen_castling pos = Some castle"
    and ms: "ms = pawn @ knight @ bishop @ rook @ queen @ king @ castle"
    by (auto simp: pseudo_legal_def bind_eq_Some_conv Let_def split: if_splits)
  from m ms consider "m \<in> set pawn" | "m \<in> set knight" | "m \<in> set bishop" | "m \<in> set rook"
    | "m \<in> set queen" | "m \<in> set king" | "m \<in> set castle" by auto
  then show ?thesis
    using gen_pawn_moves_ok[OF v p(1)] gen_piece_moves_ok[OF v p(2)] gen_piece_moves_ok[OF v p(3)]
      gen_piece_moves_ok[OF v p(4)] gen_piece_moves_ok[OF v p(5)] gen_piece_moves_ok[OF v p(6)]
      gen_castling_ok[OF v p(7)]
    by cases blast+
qed

lemma make_unmake_ok:
  assumes "valid_position pos" "pseudo_legal pos = Some ms" "m \<in> set ms"
  shows "make_move pos m = Some (made pos m)" "unmake_move (made pos m) m = Some pos"
  using make_move_made[OF assms(1) pseudo_legal_ok[OF assms]]
    unmake_made[OF assms(1) pseudo_legal_ok[OF assms]] by simp_all

section \<open>The board after a move\<close>

lemma mailbox_after:
  "mailbox (board_after pos m) =
     (let mb = mailbox (board pos);
          mb1 = mb(from_sq m := kNoPiece);
          mb2 = (if mb (capture_square m) \<noteq> kNoPiece then mb1(capture_square m := kNoPiece) else mb1);
          mb3 = mb2(to_sq m := placed_piece pos m)
      in case rook_squares m of
           None \<Rightarrow> mb3
         | Some (rf, rt) \<Rightarrow> mb3(rf := kNoPiece, rt := mb3 rf))"
  by (simp add: board_after_def Let_def split: option.splits)

lemma board_ok_after:
  assumes v: "valid_position pos" and ok: "move_ok pos m"
  shows "board_ok (board_after pos m)"
proof -
  obtain f t fl pr where m: "m = Move f t fl pr" by (cases m)
  from ok m have f: "f < 64" and t: "t < 64" and ft: "f \<noteq> t"
    and pf: "ptype (mailbox (board pos) f) \<noteq> NoType"
    by (auto simp: move_ok_def)
  from v have bok: "board_ok (board pos)" by (auto simp: valid_position_def)
  note defs = board_after_def capture_square_def placed_piece_def rook_squares_def
  note simps = Let_def board_ok_place board_ok_lift bok board_ok_NoType[OF bok]
  show ?thesis
  proof (cases fl)
    case Normal
    then show ?thesis using f t ft pf by (simp add: defs m simps)
  next
    case DoublePawn
    then show ?thesis using f t ft pf by (simp add: defs m simps)
  next
    case EnPassant
    with ok m have c: "make_square (file_of t) (rank_of f) < 64"
       "make_square (file_of t) (rank_of f) \<noteq> f" "mailbox (board pos) t = kNoPiece"
      by (auto simp add: move_ok_def)
    with EnPassant show ?thesis using f t ft pf by (auto simp add: defs m simps)
  next
    case CastleKingside
    show ?thesis
    proof (cases "side_to_move pos")
      case White
      with ok m CastleKingside have c: "f = 4" "t = 6" "mailbox (board pos) 6 = kNoPiece"
        "mailbox (board pos) 5 = kNoPiece" "ptype (mailbox (board pos) 7) \<noteq> NoType"
        by (auto simp add: move_ok_def king_home_def)
      then show ?thesis
        using pf by (simp add: defs m CastleKingside simps rank_of_def make_square_def)
    next
      case Black
      with ok m CastleKingside have c: "f = 60" "t = 62" "mailbox (board pos) 62 = kNoPiece"
        "mailbox (board pos) 61 = kNoPiece" "ptype (mailbox (board pos) 63) \<noteq> NoType"
        by (auto simp add: move_ok_def king_home_def)
      then show ?thesis
        using pf by (simp add: defs m CastleKingside simps rank_of_def make_square_def)
    qed
  next
    case CastleQueenside
    show ?thesis
    proof (cases "side_to_move pos")
      case White
      with ok m CastleQueenside have c: "f = 4" "t = 2" "mailbox (board pos) 2 = kNoPiece"
        "mailbox (board pos) 3 = kNoPiece" "ptype (mailbox (board pos) 0) \<noteq> NoType"
        by (auto simp add: move_ok_def king_home_def)
      then show ?thesis
        using pf by (simp add: defs m CastleQueenside simps rank_of_def make_square_def)
    next
      case Black
      with ok m CastleQueenside have c: "f = 60" "t = 58" "mailbox (board pos) 58 = kNoPiece"
        "mailbox (board pos) 59 = kNoPiece" "ptype (mailbox (board pos) 56) \<noteq> NoType"
        by (auto simp add: move_ok_def king_home_def)
      then show ?thesis
        using pf by (simp add: defs m CastleQueenside simps rank_of_def make_square_def)
    qed
  next
    case Promotion
    with ok m have "pr \<noteq> NoType" by (auto simp: move_ok_def)
    with Promotion show ?thesis using f t ft pf by (simp add: defs m simps)
  qed
qed

lemma ep_ok_after:
  assumes v: "valid_position pos" and ok: "move_ok pos m"
  shows "ep_ok (made pos m)" and "ep_rank_ok (made pos m)"
proof -
  have "ep_ok (made pos m) \<and> ep_rank_ok (made pos m)"
  proof (cases "flag m = DoublePawn")
    case False
    then show ?thesis by (simp add: ep_ok_def ep_rank_ok_def made_def ep_after_def kNoSquare_def)
  next
    case True
    with ok show ?thesis
      by (auto simp add: ep_ok_def ep_rank_ok_def made_def ep_after_def move_ok_def mailbox_after
          Let_def capture_square_def rook_squares_def)
  qed
  then show "ep_ok (made pos m)" and "ep_rank_ok (made pos m)" by simp_all
qed

section \<open>Castling masks\<close>

lemma right_bit:
  "(w :: CastlingRights) AND kWhiteKingside \<noteq> 0 \<longleftrightarrow> bit w 0"
  "(w :: CastlingRights) AND kWhiteQueenside \<noteq> 0 \<longleftrightarrow> bit w (Suc 0)"
  "(w :: CastlingRights) AND kBlackKingside \<noteq> 0 \<longleftrightarrow> bit w 2"
  "(w :: CastlingRights) AND kBlackQueenside \<noteq> 0 \<longleftrightarrow> bit w 3"
  using and_exp_eq_0_iff_not_bit[of w 0] and_exp_eq_0_iff_not_bit[of w 1]
    and_exp_eq_0_iff_not_bit[of w 2] and_exp_eq_0_iff_not_bit[of w 3]
  by (simp_all add: kWhiteKingside_def kWhiteQueenside_def kBlackKingside_def kBlackQueenside_def)

lemma mask_values:
  "castling_mask_for sq =
     (if sq = 0 then 13 else if sq = 7 then 14 else if sq = 4 then 12
      else if sq = 56 then 7 else if sq = 63 then 11 else if sq = 60 then 3 else 15)"
  by (simp add: castling_mask_for_def kCastlingAll_def kWhiteBoth_def kBlackBoth_def cr_not_def
      kWhiteKingside_def kWhiteQueenside_def kBlackKingside_def kBlackQueenside_def)

lemma mask_bits:
  "bit (castling_mask_for sq) 0 \<longleftrightarrow> sq \<noteq> 7 \<and> sq \<noteq> 4"
  "bit (castling_mask_for sq) (Suc 0) \<longleftrightarrow> sq \<noteq> 0 \<and> sq \<noteq> 4"
  "bit (castling_mask_for sq) 2 \<longleftrightarrow> sq \<noteq> 63 \<and> sq \<noteq> 60"
  "bit (castling_mask_for sq) 3 \<longleftrightarrow> sq \<noteq> 56 \<and> sq \<noteq> 60"
  by (simp_all add: mask_values)

lemma right_kept:
  "castling_after pos m AND kWhiteKingside \<noteq> 0 \<longleftrightarrow>
     castling pos AND kWhiteKingside \<noteq> 0 \<and> from_sq m \<notin> {4, 7} \<and> to_sq m \<notin> {4, 7}"
  "castling_after pos m AND kWhiteQueenside \<noteq> 0 \<longleftrightarrow>
     castling pos AND kWhiteQueenside \<noteq> 0 \<and> from_sq m \<notin> {4, 0} \<and> to_sq m \<notin> {4, 0}"
  "castling_after pos m AND kBlackKingside \<noteq> 0 \<longleftrightarrow>
     castling pos AND kBlackKingside \<noteq> 0 \<and> from_sq m \<notin> {60, 63} \<and> to_sq m \<notin> {60, 63}"
  "castling_after pos m AND kBlackQueenside \<noteq> 0 \<longleftrightarrow>
     castling pos AND kBlackQueenside \<noteq> 0 \<and> from_sq m \<notin> {60, 56} \<and> to_sq m \<notin> {60, 56}"
  by (auto simp add: right_bit castling_after_def bit_simps mask_bits)

section \<open>Valid positions stay valid\<close>

lemma ep_capture_not_back_rank:
  assumes "rank_of t \<in> {2, 5}" "rank_of f = rank_of t + 1 \<or> rank_of t = rank_of f + 1"
  shows "make_square (file_of t) (rank_of f) \<notin> {0, 4, 7, 56, 60, 63}"
proof -
  have ft: "file_of t < 8" by (simp add: file_of_def)
  from assms have "rank_of f = 1 \<or> rank_of f = 3 \<or> rank_of f = 4 \<or> rank_of f = 6" by auto
  then have "8 \<le> rank_of f * 8 + file_of t \<and> rank_of f * 8 + file_of t < 56"
    using ft by auto
  then show ?thesis by (auto simp: make_square_def)
qed

lemma side_ok_made:
  assumes v: "valid_position pos" and er: "ep_rank_ok pos" and ok: "move_ok pos m"
    and so: "side_ok pos c R rs"
    and keep: "castling_after pos m AND R \<noteq> 0 \<Longrightarrow>
       castling pos AND R \<noteq> 0 \<and> from_sq m \<notin> {king_home c, rs} \<and> to_sq m \<notin> {king_home c, rs}"
    and corner: "rs \<in> (if c = White then {0, 7} else {56, 63})"
  shows "side_ok (made pos m) c R rs"
  unfolding side_ok_def
proof (intro impI)
  assume "castling (made pos m) AND R \<noteq> 0"
  then have "castling_after pos m AND R \<noteq> 0" by (simp add: made_def)
  from keep[OF this] have r: "castling pos AND R \<noteq> 0" and fh: "from_sq m \<noteq> king_home c"
    "from_sq m \<noteq> rs" "to_sq m \<noteq> king_home c" "to_sq m \<noteq> rs" by auto
  let ?mb = "mailbox (board pos)"
  from so r have u: "\<And>sq. ?mb sq = Piece c King \<longleftrightarrow> sq = king_home c"
    and rk: "?mb rs = Piece c Rook" by (auto simp: side_ok_def)
  from u fh have nk: "?mb (from_sq m) \<noteq> Piece c King" by simp
  have pk: "placed_piece pos m \<noteq> Piece c King"
    using nk ok by (auto simp: placed_piece_def move_ok_def)
  have hk: "?mb (king_home c) = Piece c King" using u by simp
  have hne: "king_home c \<noteq> rs" using corner by (auto simp: king_home_def split: if_splits Color.splits)
  have bm: "board (made pos m) = board_after pos m" by (simp add: made_def)
  have "(\<forall>sq. mailbox (board_after pos m) sq = Piece c King \<longleftrightarrow> sq = king_home c)
      \<and> mailbox (board_after pos m) rs = Piece c Rook"
  proof (cases "flag m")
    case Normal
    then show ?thesis
      using u rk nk pk hk fh
      by (auto simp add: mailbox_after Let_def capture_square_def rook_squares_def kNoPiece_def)
  next
    case DoublePawn
    then show ?thesis
      using u rk nk pk hk fh
      by (auto simp add: mailbox_after Let_def capture_square_def rook_squares_def kNoPiece_def)
  next
    case Promotion
    then show ?thesis
      using u rk nk pk hk fh
      by (auto simp add: mailbox_after Let_def capture_square_def rook_squares_def kNoPiece_def)
  next
    case EnPassant
    with ok have t: "to_sq m = en_passant pos" "to_sq m < 64"
      and rr: "rank_of (from_sq m) = rank_of (to_sq m) + 1 \<or> rank_of (to_sq m) = rank_of (from_sq m) + 1"
      by (auto simp: move_ok_def)
    with er have "rank_of (to_sq m) \<in> {2, 5}" by (simp add: ep_rank_ok_def)
    from ep_capture_not_back_rank[OF this rr]
    have cs: "make_square (file_of (to_sq m)) (rank_of (from_sq m)) \<noteq> king_home c"
      "make_square (file_of (to_sq m)) (rank_of (from_sq m)) \<noteq> rs"
      using corner by (auto simp: king_home_def split: if_splits Color.splits)
    show ?thesis
      using u rk nk pk hk fh cs EnPassant
      by (auto simp add: mailbox_after Let_def capture_square_def rook_squares_def kNoPiece_def)
  next
    case CastleKingside
    with ok have f: "from_sq m = king_home (side_to_move pos)" "to_sq m = king_home (side_to_move pos) + 2"
      by (auto simp: move_ok_def)
    with fh have cu: "c \<noteq> side_to_move pos" by auto
    show ?thesis
    proof (cases c)
      case White
      with cu have b: "side_to_move pos = Black" by (cases "side_to_move pos") auto
      with f have sq: "from_sq m = 60" "to_sq m = 62" by (simp_all add: king_home_def)
      show ?thesis
        using u rk nk pk hk corner CastleKingside White sq
        by (auto simp add: mailbox_after Let_def capture_square_def rook_squares_def kNoPiece_def
            rank_of_def make_square_def king_home_def)
    next
      case Black
      with cu have b: "side_to_move pos = White" by (cases "side_to_move pos") auto
      with f have sq: "from_sq m = 4" "to_sq m = 6" by (simp_all add: king_home_def)
      show ?thesis
        using u rk nk pk hk corner CastleKingside Black sq
        by (auto simp add: mailbox_after Let_def capture_square_def rook_squares_def kNoPiece_def
            rank_of_def make_square_def king_home_def)
    qed
  next
    case CastleQueenside
    with ok have f: "from_sq m = king_home (side_to_move pos)" "to_sq m = king_home (side_to_move pos) - 2"
      by (auto simp: move_ok_def)
    with fh have cu: "c \<noteq> side_to_move pos" by auto
    show ?thesis
    proof (cases c)
      case White
      with cu have b: "side_to_move pos = Black" by (cases "side_to_move pos") auto
      with f have sq: "from_sq m = 60" "to_sq m = 58" by (simp_all add: king_home_def)
      show ?thesis
        using u rk nk pk hk corner CastleQueenside White sq
        by (auto simp add: mailbox_after Let_def capture_square_def rook_squares_def kNoPiece_def
            rank_of_def make_square_def king_home_def)
    next
      case Black
      with cu have b: "side_to_move pos = White" by (cases "side_to_move pos") auto
      with f have sq: "from_sq m = 4" "to_sq m = 2" by (simp_all add: king_home_def)
      show ?thesis
        using u rk nk pk hk corner CastleQueenside Black sq
        by (auto simp add: mailbox_after Let_def capture_square_def rook_squares_def kNoPiece_def
            rank_of_def make_square_def king_home_def)
    qed
  qed
  then show "(\<forall>sq. (mailbox (board (made pos m)) sq = Piece c King) = (sq = king_home c)) \<and>
    mailbox (board (made pos m)) rs = Piece c Rook"
    by (simp add: bm)
qed

lemma valid_after:
  assumes v: "valid_position pos" and er: "ep_rank_ok pos" and ok: "move_ok pos m"
  shows "valid_position (made pos m)" and "ep_rank_ok (made pos m)"
proof -
  from v have c: "side_ok pos White kWhiteKingside 7" "side_ok pos White kWhiteQueenside 0"
    "side_ok pos Black kBlackKingside 63" "side_ok pos Black kBlackQueenside 56"
    by (simp_all add: valid_position_def castling_ok_def)
  have "castling_ok (made pos m)"
    unfolding castling_ok_def
    using side_ok_made[OF v er ok c(1)] side_ok_made[OF v er ok c(2)]
      side_ok_made[OF v er ok c(3)] side_ok_made[OF v er ok c(4)]
    by (simp add: right_kept king_home_def)
  moreover have "board_ok (board (made pos m))"
    using board_ok_after[OF v ok] by (simp add: made_def)
  ultimately show "valid_position (made pos m)"
    using ep_ok_after(1)[OF v ok] by (simp add: valid_position_def)
  show "ep_rank_ok (made pos m)" by (rule ep_ok_after(2)[OF v ok])
qed

section \<open>The key computed from scratch\<close>

lemma piece_hash_none [simp]: "piece_hash kNoPiece sq = 0"
  by (simp add: piece_hash_def piece_key_def)

lemma piece_key_hash:
  "sq < 64 \<Longrightarrow> ptype p \<noteq> NoType \<Longrightarrow> piece_key (color p) (ptype p) sq = Some (piece_hash p sq)"
  by (simp add: piece_hash_def piece_key_def)

lemma key_of_squares_eq:
  assumes "board_ok b" "\<forall>sq\<in>set sqs. sq < 64"
  shows "key_of_squares b sqs k = Some (k XOR board_hash (mailbox b) sqs)"
  using assms(2)
proof (induction sqs arbitrary: k)
  case Nil
  then show ?case by (simp add: board_hash_def)
next
  case (Cons sq sqs)
  show ?case
  proof (cases "mailbox b sq = kNoPiece")
    case True
    with Cons show ?thesis by (simp add: board_hash_def)
  next
    case False
    with assms(1) have "ptype (mailbox b sq) \<noteq> NoType" by (rule board_ok_NoType)
    with Cons False show ?thesis
      by (simp add: board_hash_def piece_key_hash xor.assoc)
  qed
qed

lemma board_hash_upd_notin:
  "s \<notin> set sqs \<Longrightarrow> board_hash (mb(s := p)) sqs = board_hash mb sqs"
  by (induction sqs) (auto simp: board_hash_def)

lemma board_hash_upd_in:
  "distinct sqs \<Longrightarrow> s \<in> set sqs \<Longrightarrow>
   board_hash (mb(s := p)) sqs = board_hash mb sqs XOR piece_hash (mb s) s XOR piece_hash p s"
proof (induction sqs)
  case Nil
  then show ?case by simp
next
  case (Cons a sqs)
  show ?case
  proof (cases "a = s")
    case True
    with Cons(2) have "s \<notin> set sqs" by simp
    from board_hash_upd_notin[OF this, of mb p] True show ?thesis
      by (simp add: board_hash_def xor.assoc xor.commute xor.left_commute)
  next
    case False
    from Cons.prems False have "distinct sqs" "s \<in> set sqs" by auto
    from Cons.IH[OF this]
    have ih: "board_hash (mb(s := p)) sqs = board_hash mb sqs XOR piece_hash (mb s) s XOR piece_hash p s" .
    have "board_hash (mb(s := p)) (a # sqs) = piece_hash (mb a) a XOR board_hash (mb(s := p)) sqs"
      using False by (simp add: board_hash_def)
    also have "\<dots> = piece_hash (mb a) a XOR (board_hash mb sqs XOR piece_hash (mb s) s XOR piece_hash p s)"
      by (simp only: ih)
    also have "\<dots> = board_hash mb (a # sqs) XOR piece_hash (mb s) s XOR piece_hash p s"
      by (simp add: board_hash_def xor.assoc)
    finally show ?thesis .
  qed
qed

lemma board_hash_upd:
  "s < 64 \<Longrightarrow>
   board_hash (mb(s := p)) [0..<64] = board_hash mb [0..<64] XOR piece_hash (mb s) s XOR piece_hash p s"
  by (rule board_hash_upd_in) simp_all

lemma key_from_scratch_eq:
  assumes "board_ok (board pos)" "en_passant pos \<le> 64"
  shows "key_from_scratch pos =
     Some (castling_key (castling pos)
           XOR (if side_to_move pos = Black then side_to_move_key else 0)
           XOR ep_hash (en_passant pos)
           XOR board_hash (mailbox (board pos)) [0..<64])"
  using assms(2)
  by (auto simp add: key_from_scratch_def Let_def key_of_squares_eq[OF assms(1)] ep_hash_def
      en_passant_key_def kNoSquare_def xor.assoc)

section \<open>The key after a move\<close>

lemma hash_after:
  assumes v: "valid_position pos" and ok: "move_ok pos m"
  shows "board_hash (mailbox (board_after pos m)) [0..<64] =
     board_hash (mailbox (board pos)) [0..<64]
     XOR piece_hash (mailbox (board pos) (from_sq m)) (from_sq m)
     XOR (if mailbox (board pos) (capture_square m) \<noteq> kNoPiece
          then piece_hash (mailbox (board pos) (capture_square m)) (capture_square m) else 0)
     XOR piece_hash (placed_piece pos m) (to_sq m)
     XOR (case rook_squares m of
            None \<Rightarrow> 0
          | Some (rf, rt) \<Rightarrow> piece_hash (mailbox (board pos) rf) rf
                              XOR piece_hash (mailbox (board pos) rf) rt)"
proof -
  obtain f t fl pr where m: "m = Move f t fl pr" by (cases m)
  from ok m have f: "f < 64" and t: "t < 64" and ft: "f \<noteq> t"
    by (auto simp: move_ok_def)
  note defs = mailbox_after capture_square_def rook_squares_def
  note simps = Let_def board_hash_upd xor.assoc
  show ?thesis
  proof (cases fl)
    case Normal
    then show ?thesis using f t ft by (simp add: defs m simps)
  next
    case DoublePawn
    then show ?thesis using f t ft by (simp add: defs m simps)
  next
    case Promotion
    then show ?thesis using f t ft by (simp add: defs m simps)
  next
    case EnPassant
    with ok m have c: "make_square (file_of t) (rank_of f) < 64"
       "make_square (file_of t) (rank_of f) \<noteq> f" "mailbox (board pos) t = kNoPiece"
      by (auto simp add: move_ok_def)
    with EnPassant show ?thesis using f t ft by (auto simp add: defs m simps)
  next
    case CastleKingside
    show ?thesis
    proof (cases "side_to_move pos")
      case White
      with ok m CastleKingside have c: "f = 4" "t = 6" "mailbox (board pos) 6 = kNoPiece"
        "mailbox (board pos) 5 = kNoPiece"
        by (auto simp add: move_ok_def king_home_def)
      then show ?thesis
        by (simp add: defs m CastleKingside simps rank_of_def make_square_def)
    next
      case Black
      with ok m CastleKingside have c: "f = 60" "t = 62" "mailbox (board pos) 62 = kNoPiece"
        "mailbox (board pos) 61 = kNoPiece"
        by (auto simp add: move_ok_def king_home_def)
      then show ?thesis
        by (simp add: defs m CastleKingside simps rank_of_def make_square_def)
    qed
  next
    case CastleQueenside
    show ?thesis
    proof (cases "side_to_move pos")
      case White
      with ok m CastleQueenside have c: "f = 4" "t = 2" "mailbox (board pos) 2 = kNoPiece"
        "mailbox (board pos) 3 = kNoPiece"
        by (auto simp add: move_ok_def king_home_def)
      then show ?thesis
        by (simp add: defs m CastleQueenside simps rank_of_def make_square_def)
    next
      case Black
      with ok m CastleQueenside have c: "f = 60" "t = 58" "mailbox (board pos) 58 = kNoPiece"
        "mailbox (board pos) 59 = kNoPiece"
        by (auto simp add: move_ok_def king_home_def)
      then show ?thesis
        by (simp add: defs m CastleQueenside simps rank_of_def make_square_def)
    qed
  qed
qed

lemma side_hash_flip:
  "(if opposite s = Black then side_to_move_key else 0) =
   (if s = Black then side_to_move_key else 0) XOR side_to_move_key"
  by (cases s) simp_all

lemma key_ok_after:
  assumes v: "valid_position pos" and ok: "move_ok pos m" and k: "key_ok pos"
  shows "key_ok (made pos m)"
proof -
  from v have bok: "board_ok (board pos)" and ep: "en_passant pos \<le> 64"
    by (auto simp: valid_position_def ep_ok_def)
  from k have kp: "key pos = castling_key (castling pos)
           XOR (if side_to_move pos = Black then side_to_move_key else 0)
           XOR ep_hash (en_passant pos)
           XOR board_hash (mailbox (board pos)) [0..<64]"
    by (simp add: key_ok_def key_from_scratch_eq[OF bok ep])
  have b': "board_ok (board (made pos m))" using board_ok_after[OF v ok] by (simp add: made_def)
  have e': "en_passant (made pos m) \<le> 64" using ep_ok_after(1)[OF v ok] by (simp add: ep_ok_def)
  have "key_from_scratch (made pos m) =
     Some (castling_key (castling_after pos m)
           XOR (if opposite (side_to_move pos) = Black then side_to_move_key else 0)
           XOR ep_hash (ep_after m)
           XOR board_hash (mailbox (board_after pos m)) [0..<64])"
    unfolding key_from_scratch_eq[OF b' e'] by (simp add: made_def)
  also have "\<dots> = Some (key_after pos m)"
    unfolding hash_after[OF v ok] side_hash_flip key_after_def Let_def kp
    by (simp add: xor.assoc xor.commute xor.left_commute)
  finally show ?thesis by (simp add: key_ok_def made_def)
qed

section \<open>The attack loops return\<close>

lemma ray_loop_total:
  assumes "df \<in> {-1, 0, 1}" "dr \<in> {-1, 0, 1}" "df \<noteq> 0 \<or> dr \<noteq> 0"
  shows "\<exists>a. ray_loop occ df dr f r att = Some a"
proof -
  define steps where "steps f r =
    (if df = 1 then nat (8 - f) else if df = - 1 then nat (f + 1)
     else if dr = 1 then nat (8 - r) else nat (r + 1))" for f r :: int
  show ?thesis
  proof (induction "steps f r" arbitrary: f r att rule: less_induct)
    case less
    show ?case
    proof (cases "f \<ge> 0 \<and> f \<le> 7 \<and> r \<ge> 0 \<and> r \<le> 7")
      case False
      then show ?thesis by (subst ray_loop.simps) auto
    next
      case True
      then have "steps (f + df) (r + dr) < steps f r"
        using assms by (auto simp: steps_def)
      from less[OF this] obtain a where
        "ray_loop occ df dr (f + df) (r + dr) (bb_set_bit att (make_square (nat f) (nat r))) = Some a"
        by blast
      then show ?thesis by (subst ray_loop.simps) auto
    qed
  qed
qed

lemma mask_loop_total:
  assumes "df \<in> {-1, 1}"
  shows "\<exists>a. mask_loop df dr f r msk = Some a"
proof -
  define steps where "steps f = (if df = 1 then nat (8 - f) else nat (f + 1))" for f :: int
  show ?thesis
  proof (induction "steps f" arbitrary: f r msk rule: less_induct)
    case less
    show ?case
    proof (cases "f > 0 \<and> f < 7 \<and> r > 0 \<and> r < 7")
      case False
      then show ?thesis by (subst mask_loop.simps) auto
    next
      case True
      then have "steps (f + df) < steps f"
        using assms by (auto simp: steps_def)
      from less[OF this] obtain a where
        "mask_loop df dr (f + df) (r + dr) (bb_set_bit msk (make_square (nat f) (nat r))) = Some a"
        by blast
      then show ?thesis by (subst mask_loop.simps) auto
    qed
  qed
qed

lemma ray_attacks_total:
  assumes "df \<in> {-1, 0, 1}" "dr \<in> {-1, 0, 1}" "df \<noteq> 0 \<or> dr \<noteq> 0"
  shows "\<exists>a. ray_attacks sq occ df dr = Some a"
  unfolding ray_attacks_def by (rule ray_loop_total[OF assms])

lemma bishop_attacks_slow_total: "\<exists>a. bishop_attacks_slow sq occ = Some a"
proof -
  obtain a b c d where "ray_attacks sq occ 1 1 = Some a" "ray_attacks sq occ 1 (-1) = Some b"
    "ray_attacks sq occ (-1) 1 = Some c" "ray_attacks sq occ (-1) (-1) = Some d"
    using ray_attacks_total[of 1 1 sq occ] ray_attacks_total[of 1 "-1" sq occ]
      ray_attacks_total[of "-1" 1 sq occ] ray_attacks_total[of "-1" "-1" sq occ]
    by auto
  then show ?thesis by (simp add: bishop_attacks_slow_def)
qed

lemma rook_attacks_slow_total: "\<exists>a. rook_attacks_slow sq occ = Some a"
proof -
  obtain a b c d where "ray_attacks sq occ 1 0 = Some a" "ray_attacks sq occ (-1) 0 = Some b"
    "ray_attacks sq occ 0 1 = Some c" "ray_attacks sq occ 0 (-1) = Some d"
    using ray_attacks_total[of 1 0 sq occ] ray_attacks_total[of "-1" 0 sq occ]
      ray_attacks_total[of 0 1 sq occ] ray_attacks_total[of 0 "-1" sq occ]
    by auto
  then show ?thesis by (simp add: rook_attacks_slow_def)
qed

lemma bishop_mask_total: "\<exists>a. bishop_mask sq = Some a"
proof -
  let ?f = "int (file_of sq)" and ?r = "int (rank_of sq)"
  obtain a where a: "mask_loop 1 1 (?f + 1) (?r + 1) kEmptyBB = Some a"
    using mask_loop_total[of 1] by blast
  obtain b where b: "mask_loop 1 (-1) (?f + 1) (?r - 1) a = Some b"
    using mask_loop_total[of 1] by blast
  obtain c where c: "mask_loop (-1) 1 (?f - 1) (?r + 1) b = Some c"
    using mask_loop_total[of "-1"] by blast
  obtain d where d: "mask_loop (-1) (-1) (?f - 1) (?r - 1) c = Some d"
    using mask_loop_total[of "-1"] by blast
  from a b c d show ?thesis by (simp add: bishop_mask_def Let_def)
qed

lemma bishop_attacks_total: "sq < 64 \<Longrightarrow> \<exists>a. bishop_attacks sq occ = Some a"
  using bishop_mask_total[of sq] bishop_attacks_slow_total[of sq]
  by (auto simp: bishop_attacks_def)

lemma rook_attacks_total: "sq < 64 \<Longrightarrow> \<exists>a. rook_attacks sq occ = Some a"
  using rook_attacks_slow_total[of sq] by (auto simp: rook_attacks_def)

lemma is_square_attacked_total:
  "sq < 64 \<Longrightarrow> \<exists>r. is_square_attacked pos sq by = Some r"
  using bishop_attacks_total[of sq "occupied_all (board pos)"]
    rook_attacks_total[of sq "occupied_all (board pos)"]
  by (auto simp: is_square_attacked_def Let_def)

lemma is_square_attacked_no_sliders:
  assumes "sq < 64" "pieces (board pos) by Bishop = 0" "pieces (board pos) by Rook = 0"
    "pieces (board pos) by Queen = 0"
  shows "is_square_attacked pos sq by =
     Some (pawn_attacks (opposite by) sq AND pieces (board pos) by Pawn \<noteq> 0
           \<or> knight_attacks sq AND pieces (board pos) by Knight \<noteq> 0
           \<or> king_attacks sq AND pieces (board pos) by King \<noteq> 0)"
  using bishop_attacks_total[OF assms(1), of "occupied_all (board pos)"]
    rook_attacks_total[OF assms(1), of "occupied_all (board pos)"] assms
  by (auto simp: is_square_attacked_def Let_def)

section \<open>Parsed positions\<close>

lemma key_from_scratch_fields [simp]:
  "key_from_scratch (pos\<lparr> key := k, key_history := ks \<rparr>) = key_from_scratch pos"
  by (simp add: key_from_scratch_def Let_def cong: if_cong)

lemma parse_square_le: "parse_square s \<le> 64"
proof -
  have "make_square (nat f) (nat r) \<le> 64" if "\<not> (f < 0 \<or> f > 7 \<or> r < 0 \<or> r > 7)" for f r :: int
  proof -
    have "nat f \<le> 7" "nat r \<le> 7" using that by auto
    from make_square_lt[OF this] show ?thesis by simp
  qed
  then show ?thesis by (simp add: parse_square_def kNoSquare_def Let_def)
qed

lemma placement_loop_inv:
  assumes "board_ok b"
    and "\<forall>sq<64. int (rank_of sq) < rank \<or> (int (rank_of sq) = rank \<and> fil \<le> int (file_of sq))
            \<longrightarrow> mailbox b sq = kNoPiece"
    and "0 \<le> rank" "rank \<le> 7" "0 \<le> fil"
  shows "case placement_loop fen s rank fil b of
           Inr (r', f', b') \<Rightarrow> board_ok b' \<and> 0 \<le> r' \<and> r' \<le> 7
         | Inl e \<Rightarrow> e \<noteq> OutOfBounds"
  using assms
proof (induction s arbitrary: rank fil b)
  case Nil
  then show ?case by simp
next
  case (Cons ch rest)
  note bok = Cons.prems(1) and emp = Cons.prems(2) and r0 = Cons.prems(3) and r7 = Cons.prems(4)
    and f0 = Cons.prems(5)
  show ?case
  proof (cases "ch = CHR ''/''")
    case True
    show ?thesis
    proof (cases "fil \<noteq> 8 \<or> rank - 1 < 0")
      case True
      with \<open>ch = CHR ''/''\<close> show ?thesis by auto
    next
      case False
      have "\<forall>sq<64. int (rank_of sq) < rank - 1
                \<or> (int (rank_of sq) = rank - 1 \<and> 0 \<le> int (file_of sq))
              \<longrightarrow> mailbox b sq = kNoPiece"
        using emp by auto
      from Cons.IH[OF bok this] False r7
      have "case placement_loop fen rest (rank - 1) 0 b of
              Inr (r', f', b') \<Rightarrow> board_ok b' \<and> 0 \<le> r' \<and> r' \<le> 7
            | Inl e \<Rightarrow> e \<noteq> OutOfBounds" by simp
      with False \<open>ch = CHR ''/''\<close> show ?thesis by simp
    qed
  next
    case nsl: False
    show ?thesis
    proof (cases "char_code ch \<ge> 49 \<and> char_code ch \<le> 56")
      case dig: True
      show ?thesis
      proof (cases "fil + (char_code ch - 48) > 8")
        case True
        with nsl dig show ?thesis by simp
      next
        case False
        have "\<forall>sq<64. int (rank_of sq) < rank
                  \<or> (int (rank_of sq) = rank \<and> fil + (char_code ch - 48) \<le> int (file_of sq))
                \<longrightarrow> mailbox b sq = kNoPiece"
          using emp dig by auto
        from Cons.IH[OF bok this r0 r7] f0 dig
        have "case placement_loop fen rest rank (fil + (char_code ch - 48)) b of
                Inr (r', f', b') \<Rightarrow> board_ok b' \<and> 0 \<le> r' \<and> r' \<le> 7
              | Inl e \<Rightarrow> e \<noteq> OutOfBounds" by simp
        with nsl dig False show ?thesis by simp
      qed
    next
      case ndig: False
      show ?thesis
      proof (cases "fil \<ge> 8 \<or> ptype (from_fen_char ch) = NoType")
        case True
        with nsl ndig show ?thesis by auto
      next
        case False
        let ?sq = "make_square (nat fil) (nat rank)"
        have fr: "nat fil \<le> 7" "nat rank \<le> 7" using False r7 by auto
        from make_square_lt[OF fr] have sq: "?sq = nat rank * 8 + nat fil" "?sq < 64" by auto
        have rk: "rank_of ?sq = nat rank" and fi: "file_of ?sq = nat fil"
          using fr by (simp_all add: sq(1) rank_of_def file_of_def)
        have e: "mailbox b ?sq = kNoPiece"
          using emp sq(2) rk fi r0 f0 by auto
        have bok': "board_ok (place b ?sq (from_fen_char ch))"
          using board_ok_place[OF bok sq(2) e] False by simp
        have "\<forall>s<64. int (rank_of s) < rank
                  \<or> (int (rank_of s) = rank \<and> fil + 1 \<le> int (file_of s))
                \<longrightarrow> mailbox (place b ?sq (from_fen_char ch)) s = kNoPiece"
        proof (intro allI impI)
          fix s assume s: "s < 64"
            and u: "int (rank_of s) < rank \<or> (int (rank_of s) = rank \<and> fil + 1 \<le> int (file_of s))"
          have "int (rank_of ?sq) = rank" "int (file_of ?sq) = fil"
            using rk fi r0 f0 by simp_all
          then have "s \<noteq> ?sq" using u by auto
          moreover have "mailbox b s = kNoPiece" using emp s u by auto
          ultimately show "mailbox (place b ?sq (from_fen_char ch)) s = kNoPiece" by simp
        qed
        from Cons.IH[OF bok' this r0 r7] f0
        have "case placement_loop fen rest rank (fil + 1) (place b ?sq (from_fen_char ch)) of
                Inr (r', f', b') \<Rightarrow> board_ok b' \<and> 0 \<le> r' \<and> r' \<le> 7
              | Inl e \<Rightarrow> e \<noteq> OutOfBounds" by simp
        with nsl ndig False sq(2) show ?thesis by (auto simp add: put_piece_eq)
      qed
    qed
  qed
qed

lemma placement_loop_start:
  "case placement_loop fen s 7 0 empty_board of
     Inr (r', f', b') \<Rightarrow> board_ok b' | Inl e \<Rightarrow> e \<noteq> OutOfBounds"
proof -
  have "case placement_loop fen s 7 0 empty_board of
           Inr (r', f', b') \<Rightarrow> board_ok b' \<and> 0 \<le> r' \<and> r' \<le> 7
         | Inl e \<Rightarrow> e \<noteq> OutOfBounds"
    by (rule placement_loop_inv) (simp_all add: board_ok_empty, simp add: empty_board_def)
  then show ?thesis by (auto split: sum.splits)
qed

lemma new_Position_eq:
  assumes "board_ok b" "ep \<le> 64"
  shows "\<exists>k. new_Position b side cr ep hm fm =
           Some \<lparr> board = b, side_to_move = side, castling = cr, en_passant = ep,
                  halfmove_clock = hm, fullmove_number = fm, key = k,
                  history = [], key_history = [k] \<rparr>
         \<and> key_from_scratch \<lparr> board = b, side_to_move = side, castling = cr, en_passant = ep,
                  halfmove_clock = hm, fullmove_number = fm, key = k,
                  history = [], key_history = [k] \<rparr> = Some k"
proof -
  let ?p = "\<lparr> board = b, side_to_move = side, castling = cr, en_passant = ep,
              halfmove_clock = hm, fullmove_number = fm, key = 0,
              history = [], key_history = [] \<rparr>"
  obtain k where k: "key_from_scratch ?p = Some k"
    using key_from_scratch_eq[of ?p] assms by simp
  have "key_from_scratch (?p\<lparr> key := k, key_history := [k] \<rparr>) = Some k"
    using k by (simp only: key_from_scratch_fields)
  then show ?thesis using k by (simp add: new_Position_def compute_key_def)
qed

lemma from_fen_ok:
  assumes "from_fen fen = Inr p"
  shows "board_ok (board p) \<and> key_ok p \<and> history p = [] \<and> key_history p = [key p]
         \<and> en_passant p \<le> 64"
proof -
  let ?parts = "split_spaces fen"
  from assms obtain rank fil b where
    pl: "placement_loop fen (?parts ! 0) 7 0 empty_board = Inr (rank, fil, b)"
    by (auto simp add: from_fen_def Let_def sum_bind_def split: if_splits sum.splits)
  have bok: "board_ok b" using placement_loop_start[of fen "?parts ! 0"] pl by simp
  from assms pl obtain side cr ep hm fm where
    np: "new_Position b side cr ep hm fm = Some p" and ep: "ep = kNoSquare \<or> ep = parse_square (?parts ! 3)"
    by (auto simp add: from_fen_def Let_def sum_bind_def split: if_splits sum.splits option.splits)
  have le: "ep \<le> 64" using ep parse_square_le by (auto simp: kNoSquare_def)
  from new_Position_eq[OF bok le, of side cr hm fm] np bok le show ?thesis
    by (auto simp add: key_ok_def)
qed

section \<open>Sequences of moves, move text and repetition counts\<close>

lemma play_invariant:
  assumes "valid_position pos" "ep_rank_ok pos" "key_ok pos" "play pos ms = Some p"
  shows "valid_position p \<and> ep_rank_ok p \<and> key_ok p"
  using assms
proof (induction ms arbitrary: pos)
  case Nil
  then show ?case by simp
next
  case (Cons m ms)
  from Cons.prems(4) obtain l where l: "pseudo_legal pos = Some l" and m: "m \<in> set l"
    by (auto split: option.splits if_splits)
  have ok: "move_ok pos m" by (rule pseudo_legal_ok[OF Cons.prems(1) l m])
  have mk: "make_move pos m = Some (made pos m)" by (rule make_move_made[OF Cons.prems(1) ok])
  with Cons.prems(4) l m have "play (made pos m) ms = Some p" by simp
  with Cons.IH[OF valid_after[OF Cons.prems(1,2) ok] key_ok_after[OF Cons.prems(1) ok Cons.prems(3)]]
  show ?case by simp
qed

lemma parse_square_name:
  assumes "sq < 64"
  shows "parse_square (square_name sq) = sq"
proof -
  have "sq mod 8 < 8" by simp
  then have f: "file_of sq \<le> 7" unfolding file_of_def by linarith
  have "sq div 8 < 8" using assms by (simp add: less_mult_imp_div_less)
  then have r: "rank_of sq \<le> 7" unfolding rank_of_def by linarith
  have cf: "char_code (char_of (97 + file_of sq)) = 97 + int (file_of sq)"
    using f by (simp add: char_code_def)
  have cr: "char_code (char_of (49 + rank_of sq)) = 49 + int (rank_of sq)"
    using r by (simp add: char_code_def)
  show ?thesis
    using f r by (simp add: parse_square_def square_name_def cf cr make_square_file_rank[OF assms])
qed

lemma square_name_length [simp]: "length (square_name sq) = 2"
  by (simp add: square_name_def)

lemma from_uci_uci:
  assumes "from_sq m < 64" "to_sq m < 64"
  shows "from_uci (uci m) =
     Move (from_sq m) (to_sq m) (if promotion m = NoType then Normal else Promotion)
       (if promotion m \<in> {Knight, Bishop, Rook, Queen} then promotion m else NoType)"
proof -
  have ns: "from_sq m \<noteq> kNoSquare" "to_sq m \<noteq> kNoSquare" using assms by (simp_all add: kNoSquare_def)
  show ?thesis
  proof (cases "promotion m = NoType")
    case True
    then show ?thesis
      using ns by (simp add: from_uci_def uci_def Let_def parse_square_name[OF assms(1)]
          parse_square_name[OF assms(2)])
  next
    case False
    then show ?thesis
      using ns by (cases "promotion m")
        (simp_all add: from_uci_def uci_def Let_def parse_square_name[OF assms(1)]
          parse_square_name[OF assms(2)] nth_append promo_of_char_def)
  qed
qed

lemma legal_loop_subset:
  "legal_loop ms us pos acc = Some (r, p) \<Longrightarrow> set r \<subseteq> set acc \<union> set ms"
proof (induction ms arbitrary: pos acc)
  case Nil
  then show ?case by simp
next
  case (Cons m ms)
  from Cons.prems obtain p1 chk p2 where
    "legal_loop ms us p2 (if \<not> chk then acc @ [m] else acc) = Some (r, p)"
    by (auto simp add: Let_def split: bind_splits)
  from Cons.IH[OF this] show ?case by (auto split: if_splits)
qed

lemma legal_subset:
  assumes "legal pos = Some (ms, p)"
  shows "\<exists>l. pseudo_legal pos = Some l \<and> set ms \<subseteq> set l"
proof -
  from assms obtain l where l: "pseudo_legal pos = Some l"
    and g: "legal_loop l (side_to_move pos) pos [] = Some (ms, p)"
    by (auto simp add: legal_def split: bind_splits)
  from legal_loop_subset[OF g] l show ?thesis by simp
qed

lemma legal_move_ok:
  assumes "valid_position pos" "legal pos = Some (ms, p)" "m \<in> set ms"
  shows "move_ok pos m"
proof -
  from legal_subset[OF assms(2)] obtain l where "pseudo_legal pos = Some l" "set ms \<subseteq> set l"
    by blast
  with assms(3) pseudo_legal_ok[OF assms(1), of l m] show ?thesis by auto
qed

lemma move_ok_promotion:
  assumes "move_ok pos m"
  shows "from_sq m < 64" "to_sq m < 64"
    "promotion m \<in> {Knight, Bishop, Rook, Queen} \<longleftrightarrow> flag m = Promotion"
    "promotion m = NoType \<longleftrightarrow> flag m \<noteq> Promotion"
  using assms by (cases "flag m"; auto simp add: move_ok_def)+

lemma count_with_last:
  assumes "xs \<noteq> []" "last xs = k"
  shows "length (filter (\<lambda>x. x = k) xs) = Suc (length (filter (\<lambda>x. x = k) (butlast xs)))"
  using assms by (cases xs rule: rev_cases) simp_all

lemma repetition_count_last:
  assumes "key_history pos \<noteq> []" "last (key_history pos) = key pos"
  shows "repetition_count pos =
           1 + int (length (filter (\<lambda>k. k = key pos) (butlast (key_history pos))))"
  by (simp add: repetition_count_def count_with_last[OF assms])

section \<open>The example positions\<close>

lemma bb_squares_zero: "bb_squares 0 = []"
  by (simp add: bb_squares.simps)

lemma bb_squares_numeral:
  "bb_squares (numeral n) =
     (if (numeral n :: 64 word) = 0 then []
      else lsb (numeral n) # bb_squares (numeral n AND (numeral n - 1)))"
  by (subst bb_squares.simps) simp

lemma bb_squares_one: "bb_squares 1 = [0]"
  by (subst bb_squares.simps) (simp add: lsb_def upt_64 bb_squares_zero)

lemmas bb_eval = bb_squares_zero bb_squares_numeral bb_squares_one lsb_def upt_64

lemmas gen_eval = bb_eval shift_north_def shift_south_def shift_ne_def shift_nw_def shift_se_def
  shift_sw_def shift_east_def shift_west_def kRank1_def kRank3_def kRank6_def kRank8_def
  kFileA_def kFileB_def kFileG_def kFileH_def from_of_def to_Square_def add_promotions_def
  kPromotions_def king_attacks_def knight_attacks_def pawn_attacks_def square_bb_def
  attacks_from_def kEmptyBB_def kNoSquare_def Let_def

lemmas board_eval = place_def lift_def empty_board_def bb_set_bit_def clear_bit_def square_bb_def
  kEmptyBB_def

lemma split_fenP: "split_spaces fenP = [''4k3/8/8/8/8/8/4P3/4K3'', ''w'', ''-'', ''-'', ''0'', ''1'']"
  by (simp add: fenP_def split_spaces.simps)

lemma placeP: "placement_loop fen ''4k3/8/8/8/8/8/4P3/4K3'' 7 0 empty_board = Inr (0, 8, boardP)"
  by (simp add: boardP_def put_piece_eq char_code_def from_fen_char_def make_square_def)

lemma board_ok_P: "board_ok boardP"
  unfolding boardP_def
  by (intro board_ok_place board_ok_empty) (simp_all add: empty_board_def)

lemma new_Position_key:
  assumes "board_ok b" "ep \<le> 64"
  shows "new_Position b side cr ep hm fm =
           Some \<lparr> board = b, side_to_move = side, castling = cr, en_passant = ep,
                  halfmove_clock = hm, fullmove_number = fm,
                  key = castling_key cr XOR (if side = Black then side_to_move_key else 0)
                        XOR ep_hash ep XOR board_hash (mailbox b) [0..<64],
                  history = [],
                  key_history = [castling_key cr XOR (if side = Black then side_to_move_key else 0)
                        XOR ep_hash ep XOR board_hash (mailbox b) [0..<64]] \<rparr>"
  using key_from_scratch_eq[of "\<lparr> board = b, side_to_move = side, castling = cr, en_passant = ep,
                  halfmove_clock = hm, fullmove_number = fm, key = 0,
                  history = [], key_history = [] \<rparr>"] assms
  by (simp add: new_Position_def compute_key_def)

lemmas fen_eval = sum_bind_def parse_int_def is_digit_def dec_value_def char_code_def
  kNoSquare_def kCastlingNone_def

lemma from_fen_P: "from_fen fenP = Inr posP"
  unfolding from_fen_def split_fenP Let_def
  by (simp only: nth_Cons_0 placeP)
     (simp add: new_Position_key board_ok_P fen_eval posP_def keyP_def)

lemma posP_fields:
  "board posP = boardP" "side_to_move posP = White" "castling posP = 0" "en_passant posP = 64"
  by (simp_all add: posP_def kCastlingNone_def kNoSquare_def)

lemma boardP_fields:
  "pieces boardP White Pawn = 0x1000" "pieces boardP White Knight = 0"
  "pieces boardP White Bishop = 0" "pieces boardP White Rook = 0" "pieces boardP White Queen = 0"
  "pieces boardP White King = 0x10"
  "pieces boardP Black Pawn = 0" "pieces boardP Black Knight = 0"
  "pieces boardP Black Bishop = 0" "pieces boardP Black Rook = 0" "pieces boardP Black Queen = 0"
  "pieces boardP Black King = 0x1000000000000000"
  "occupied boardP White = 0x1010" "occupied boardP Black = 0x1000000000000000"
  "occupied_all boardP = 0x1000000000001010"
  by (simp_all add: boardP_def board_eval)

lemma mailboxP: "mailbox boardP = (\<lambda>sq. kNoPiece)(60 := Piece Black King, 12 := Piece White Pawn,
    4 := Piece White King)"
  by (simp add: boardP_def empty_board_def)

lemma valid_P: "valid_position posP" "ep_rank_ok posP"
  by (simp_all add: valid_position_def ep_ok_def castling_ok_def side_ok_def ep_rank_ok_def
      posP_fields board_ok_P)

lemma pawnP: "gen_pawn_moves posP = Some [Move 12 20 Normal NoType, Move 12 28 DoublePawn NoType]"
  by (simp add: gen_pawn_moves_def posP_fields boardP_fields gen_eval)

lemma kingP: "gen_piece_moves posP King = Some [Move 4 3 Normal NoType, Move 4 5 Normal NoType,
    Move 4 11 Normal NoType, Move 4 13 Normal NoType]"
  by (simp add: gen_piece_moves_def posP_fields boardP_fields gen_eval)

lemma othersP:
  "gen_piece_moves posP Knight = Some []" "gen_piece_moves posP Bishop = Some []"
  "gen_piece_moves posP Rook = Some []" "gen_piece_moves posP Queen = Some []"
  by (simp_all add: gen_piece_moves_def posP_fields boardP_fields bb_squares_zero)

lemma castleP: "gen_castling posP = Some []"
  by (simp add: gen_castling_def posP_fields boardP_fields king_square_def
      is_square_attacked_no_sliders gen_eval)

lemma pseudo_legal_P: "pseudo_legal posP = Some movesP"
  by (simp add: pseudo_legal_def pawnP kingP othersP castleP movesP_def kMaxMoves_def)

lemma split_fenB: "split_spaces fenB = [''4k3/8/8/8/3p4/4P3/8/4K3'', ''b'', ''-'', ''e3'', ''0'', ''1'']"
  by (simp add: fenB_def split_spaces.simps)

lemma placeB: "placement_loop fen ''4k3/8/8/8/3p4/4P3/8/4K3'' 7 0 empty_board = Inr (0, 8, boardB)"
  by (simp add: boardB_def put_piece_eq char_code_def from_fen_char_def make_square_def)

lemma board_ok_B: "board_ok boardB"
  unfolding boardB_def
  by (intro board_ok_place board_ok_empty) (simp_all add: empty_board_def)

lemma from_fen_B: "from_fen fenB = Inr posB"
  unfolding from_fen_def split_fenB Let_def
  by (simp only: nth_Cons_0 placeB)
     (simp add: new_Position_key board_ok_B fen_eval posB_def keyB_def parse_square_def
        make_square_def)

lemma posB_fields:
  "board posB = boardB" "side_to_move posB = Black" "castling posB = 0" "en_passant posB = 20"
  by (simp_all add: posB_def kCastlingNone_def)

lemma boardB_fields:
  "pieces boardB White Pawn = 0x100000" "pieces boardB White Knight = 0"
  "pieces boardB White Bishop = 0" "pieces boardB White Rook = 0" "pieces boardB White Queen = 0"
  "pieces boardB White King = 0x10"
  "pieces boardB Black Pawn = 0x8000000" "pieces boardB Black Knight = 0"
  "pieces boardB Black Bishop = 0" "pieces boardB Black Rook = 0" "pieces boardB Black Queen = 0"
  "pieces boardB Black King = 0x1000000000000000"
  "occupied boardB White = 0x100010" "occupied boardB Black = 0x1000000008000000"
  "occupied_all boardB = 0x1000000008100010"
  by (simp_all add: boardB_def board_eval)

lemma pawnB: "gen_pawn_moves posB = Some [Move 27 19 Normal NoType, Move 27 20 Normal NoType,
    Move 27 20 EnPassant NoType]"
  by (simp add: gen_pawn_moves_def posB_fields boardB_fields gen_eval)

lemma kingB: "gen_piece_moves posB King = Some [Move 60 51 Normal NoType, Move 60 52 Normal NoType,
    Move 60 53 Normal NoType, Move 60 59 Normal NoType, Move 60 61 Normal NoType]"
  by (simp add: gen_piece_moves_def posB_fields boardB_fields gen_eval)

lemma othersB:
  "gen_piece_moves posB Knight = Some []" "gen_piece_moves posB Bishop = Some []"
  "gen_piece_moves posB Rook = Some []" "gen_piece_moves posB Queen = Some []"
  by (simp_all add: gen_piece_moves_def posB_fields boardB_fields bb_squares_zero)

lemma castleB: "gen_castling posB = Some []"
  by (simp add: gen_castling_def posB_fields boardB_fields king_square_def
      is_square_attacked_no_sliders gen_eval)

lemma pseudo_legal_B: "pseudo_legal posB = Some movesB"
  by (simp add: pseudo_legal_def pawnB kingB othersB castleB movesB_def kMaxMoves_def)

section \<open>Making and unmaking a move\<close>

lemma mailboxB: "mailbox boardB = (\<lambda>sq. kNoPiece)(60 := Piece Black King, 27 := Piece Black Pawn,
    20 := Piece White Pawn, 4 := Piece White King)"
  by (simp add: boardB_def empty_board_def)

lemmas make_eval = make_move_def unmake_move_def pos_steps Let_def make_square_def file_of_def
  rank_of_def kNoPiece_def kNoSquare_def toggle_side_hash_def castling_mask_for_def
  kCastlingNone_def

lemma make_unmake_B:
  "\<exists>p q. make_move posB (Move 27 20 EnPassant NoType) = Some p
       \<and> unmake_move p (Move 27 20 EnPassant NoType) = Some q
       \<and> mailbox (board q) 20 = kNoPiece"
  by (simp add: make_eval posB_def mailboxB)

text \<open>
  Claim C1, amended. In every valid position (a coherent board, an en-passant square that
  is empty, castling rights that match the kings and rooks), for every move \<open>m\<close> of the list
  returned by \<open>pseudo_legal\<close>, \<open>make_move\<close> returns a position and \<open>unmake_move\<close> on it
  returns the position before the move: the piece bitboards, both occupancies, the
  all-occupancy, the mailbox, side to move, castling rights, en-passant square, both
  clocks, the key and the two history stacks are those before \<open>make_move\<close>.
\<close>

theorem make_unmake_restores:
  assumes "valid_position pos" and "pseudo_legal pos = Some ms" and "m \<in> set ms"
  shows "\<exists>p. make_move pos m = Some p \<and> unmake_move p m = Some pos"
  using make_unmake_ok[OF assms] by blast

text \<open>The double pawn push e2-e4 with a king and a pawn against a king.\<close>

theorem make_unmake_restores_witness:
  "valid_position posP \<and> pseudo_legal posP = Some movesP
   \<and> Move 12 28 DoublePawn NoType \<in> set movesP
   \<and> (\<exists>p. make_move posP (Move 12 28 DoublePawn NoType) = Some p
          \<and> unmake_move p (Move 12 28 DoublePawn NoType) = Some posP)"
  using make_unmake_restores[of posP movesP "Move 12 28 DoublePawn NoType"]
  by (simp add: valid_P pseudo_legal_P movesP_def)

text \<open>
  Claim C1 as written, for every position, does not hold. \<open>from_fen\<close> accepts the descriptor
  \<open>4k3/8/8/8/3p4/4P3/8/4K3 b - e3 0 1\<close>, whose en-passant square e3 holds a white pawn.
  The generator lists the en-passant capture d4xe3 for it; \<open>make_move\<close> puts the black
  pawn on e3 over the white pawn, and \<open>unmake_move\<close> then leaves e3 empty in the mailbox.
\<close>

theorem make_unmake_counterexample:
  "\<exists>pos ms p q. from_fen fenB = Inr pos \<and> pseudo_legal pos = Some ms
     \<and> Move 27 20 EnPassant NoType \<in> set ms
     \<and> make_move pos (Move 27 20 EnPassant NoType) = Some p
     \<and> unmake_move p (Move 27 20 EnPassant NoType) = Some q
     \<and> mailbox (board pos) 20 = Piece White Pawn \<and> mailbox (board q) 20 = kNoPiece
     \<and> q \<noteq> pos"
proof -
  obtain p q where pq: "make_move posB (Move 27 20 EnPassant NoType) = Some p"
    "unmake_move p (Move 27 20 EnPassant NoType) = Some q" "mailbox (board q) 20 = kNoPiece"
    using make_unmake_B by blast
  have mb: "mailbox (board posB) 20 = Piece White Pawn"
    by (simp add: posB_def boardB_def)
  with pq(3) have "q \<noteq> posB" by (auto simp add: kNoPiece_def)
  with pq mb from_fen_B pseudo_legal_B show ?thesis
    by (auto simp add: movesB_def)
qed

section \<open>The incremental key\<close>

lemma play_P:
  "play posP [Move 12 28 DoublePawn NoType] = Some (made posP (Move 12 28 DoublePawn NoType))"
proof -
  have "move_ok posP (Move 12 28 DoublePawn NoType)"
    by (rule pseudo_legal_ok[OF valid_P(1) pseudo_legal_P]) (simp add: movesP_def)
  from make_move_made[OF valid_P(1) this] show ?thesis
    by (simp add: pseudo_legal_P movesP_def)
qed

text \<open>
  Claim C2. A valid descriptor is one that \<open>from_fen\<close> accepts and whose en-passant square,
  if any, is an empty square of the third or sixth rank, and whose castling rights match
  the placement of kings and rooks. For the position built from it and every sequence of
  moves, each taken from the pseudo-legal list of the position where it is made, the key
  kept by \<open>make_move\<close> is the key computed from scratch over the resulting position; and
  from that position \<open>make_move\<close> returns a position, with the same property, for every
  pseudo-legal move.
\<close>

theorem incremental_key_is_scratch_key:
  assumes "from_fen fen = Inr p0" and "ep_ok p0" and "ep_rank_ok p0" and "castling_ok p0"
    and "play p0 ms = Some p"
  shows "key_from_scratch p = Some (key p)
       \<and> (\<forall>l m. pseudo_legal p = Some l \<longrightarrow> m \<in> set l \<longrightarrow>
            (\<exists>p'. make_move p m = Some p' \<and> key_from_scratch p' = Some (key p')))"
proof -
  from from_fen_ok[OF assms(1)] assms(2,4) have v0: "valid_position p0" and k0: "key_ok p0"
    by (simp_all add: valid_position_def)
  from play_invariant[OF v0 assms(3) k0 assms(5)]
  have v: "valid_position p" and e: "ep_rank_ok p" and k: "key_ok p" by simp_all
  have "\<exists>p'. make_move p m = Some p' \<and> key_from_scratch p' = Some (key p')"
    if l: "pseudo_legal p = Some l" and m: "m \<in> set l" for l m
  proof -
    have ok: "move_ok p m" by (rule pseudo_legal_ok[OF v l m])
    from make_move_made[OF v ok] key_ok_after[OF v ok k] show ?thesis
      by (simp add: key_ok_def)
  qed
  with k show ?thesis by (auto simp add: key_ok_def)
qed

text \<open>The position after e2-e4 from the king and pawn position.\<close>

theorem incremental_key_is_scratch_key_witness:
  "from_fen fenP = Inr posP \<and> ep_ok posP \<and> ep_rank_ok posP \<and> castling_ok posP
   \<and> play posP [Move 12 28 DoublePawn NoType] = Some (made posP (Move 12 28 DoublePawn NoType))
   \<and> key_from_scratch (made posP (Move 12 28 DoublePawn NoType))
       = Some (key (made posP (Move 12 28 DoublePawn NoType)))"
  using incremental_key_is_scratch_key[of fenP posP "[Move 12 28 DoublePawn NoType]"
      "made posP (Move 12 28 DoublePawn NoType)"] valid_P
  by (simp add: from_fen_P play_P valid_position_def del: play.simps)

section \<open>Legal moves of the example position\<close>

lemma legal_loop_made:
  assumes v: "valid_position pos"
    and ms: "\<forall>m\<in>set ms. move_ok pos m \<and> is_in_check (made pos m) us = Some (c m)"
  shows "legal_loop ms us pos acc = Some (acc @ filter (\<lambda>m. \<not> c m) ms, pos)"
  using ms
proof (induction ms arbitrary: acc)
  case Nil
  then show ?case by simp
next
  case (Cons m ms)
  from Cons.prems have ok: "move_ok pos m" and chk: "is_in_check (made pos m) us = Some (c m)"
    and rest: "\<forall>m\<in>set ms. move_ok pos m \<and> is_in_check (made pos m) us = Some (c m)"
    by simp_all
  show ?case
    by (simp add: make_move_made[OF v ok] unmake_made[OF v ok] chk Cons.IH[OF rest])
qed

lemmas after_eval = board_after_def capture_square_def placed_piece_def rook_squares_def

lemma board_made: "board (made pos m) = board_after pos m"
  by (simp add: made_def)

lemma move_ok_P: "\<forall>m\<in>set movesP. move_ok posP m"
  using pseudo_legal_ok[OF valid_P(1) pseudo_legal_P] by blast

lemma after_P:
  "board_after posP (Move 12 20 Normal NoType) = place (lift boardP 12) 20 (Piece White Pawn)"
  "board_after posP (Move 12 28 DoublePawn NoType) = place (lift boardP 12) 28 (Piece White Pawn)"
  "board_after posP (Move 4 3 Normal NoType) = place (lift boardP 4) 3 (Piece White King)"
  "board_after posP (Move 4 5 Normal NoType) = place (lift boardP 4) 5 (Piece White King)"
  "board_after posP (Move 4 11 Normal NoType) = place (lift boardP 4) 11 (Piece White King)"
  "board_after posP (Move 4 13 Normal NoType) = place (lift boardP 4) 13 (Piece White King)"
  by (simp_all add: after_eval mailboxP posP_fields kNoPiece_def)

lemmas check_eval = board_made is_in_check_def king_square_def place_def lift_def bb_set_bit_def
  clear_bit_def is_square_attacked_no_sliders gen_eval

lemma check_P: "\<forall>m\<in>set movesP. is_in_check (made posP m) White = Some False"
  by (simp add: movesP_def after_P check_eval mailboxP boardP_fields)

lemma legal_P: "legal posP = Some (movesP, posP)"
  using legal_loop_made[OF valid_P(1), of movesP White "\<lambda>m. False" "[]"] move_ok_P check_P
  by (simp add: legal_def pseudo_legal_P posP_fields)

section \<open>Repetition\<close>

lemma nth_key_values:
  "nth_key 12 = 0x5f35298e0858cfe8" "nth_key 323 = 0x1ba91913e674a68e"
  "nth_key 324 = 0x573cca9614e92e2f" "nth_key 763 = 0xd56fd1cdf9d5d3e0"
  "nth_key 764 = 0x6adc2cbee24f8fab" "nth_key 768 = 0xa620cb05d149acf4"
  "nth_key 769 = 0x6c6b1d5fa96a0d3c"
  by (simp_all add: nth_key_def splitmix64_def kSeed_def Let_def)

lemma hash_values:
  "piece_hash (Piece White Pawn) 12 = 0x5f35298e0858cfe8"
  "piece_hash (Piece White King) 3 = 0x1ba91913e674a68e"
  "piece_hash (Piece White King) 4 = 0x573cca9614e92e2f"
  "piece_hash (Piece Black King) 59 = 0xd56fd1cdf9d5d3e0"
  "piece_hash (Piece Black King) 60 = 0x6adc2cbee24f8fab"
  "side_to_move_key = 0xa620cb05d149acf4"
  "castling_key 0 = 0x6c6b1d5fa96a0d3c"
  "ep_hash 64 = 0"
  by (simp_all add: piece_hash_def piece_key_def piece_index_def 
      side_to_move_key_def castling_key_def ep_hash_def kNoSquare_def nth_key_values)

lemma keyP_value: "keyP = 0xebed2f957946350"
  by (simp add: keyP_def board_hash_def upt_64 mailboxP hash_values kCastlingNone_def kNoSquare_def)

lemma made_step:
  assumes "valid_position pos" "ep_rank_ok pos" "move_ok pos m"
  shows "make_move pos m = Some (made pos m)" "valid_position (made pos m)" "ep_rank_ok (made pos m)"
  using make_move_made[OF assms(1,3)] valid_after[OF assms] by simp_all

lemma made_fields:
  "side_to_move (made pos m) = opposite (side_to_move pos)"
  "castling (made pos m) = castling_after pos m"
  "en_passant (made pos m) = ep_after m"
  "key (made pos m) = key_after pos m"
  "key_history (made pos m) = key_history pos @ [key_after pos m]"
  "halfmove_clock (made pos m) =
     (if ptype (mailbox (board pos) (from_sq m)) = Pawn
         \<or> mailbox (board pos) (capture_square m) \<noteq> kNoPiece
      then 0 else halfmove_clock pos + 1)"
  by (simp_all add: made_def)

lemmas step_eval = board_made mailbox_after made_fields key_after_def castling_after_def
  ep_after_def capture_square_def placed_piece_def rook_squares_def castling_mask_for_def
  kCastlingAll_def kWhiteBoth_def kBlackBoth_def kWhiteKingside_def kWhiteQueenside_def
  kBlackKingside_def kBlackQueenside_def cr_not_def kNoPiece_def kNoSquare_def Let_def

lemma posP_key: "key posP = 0xebed2f957946350" "key_history posP = [0xebed2f957946350]"
  "halfmove_clock posP = 0"
  by (simp_all add: posP_def keyP_value)

lemma stepP1:
  "move_ok posP (Move 4 3 Normal NoType)"
  "mailbox (board posP1) = (\<lambda>sq. kNoPiece)(60 := Piece Black King, 12 := Piece White Pawn,
     3 := Piece White King)"
  "castling posP1 = 0" "en_passant posP1 = 64" "halfmove_clock posP1 = 1" "key posP1 = 0xe40bca7974404705"
  "key_history posP1 = [0xebed2f957946350, 0xe40bca7974404705]"
  by (simp_all add: move_ok_def posP1_def step_eval posP_fields mailboxP posP_key hash_values
      fun_eq_iff)

lemma stepP2:
  "move_ok posP1 (Move 60 59 Normal NoType)"
  "mailbox (board posP2) = (\<lambda>sq. kNoPiece)(59 := Piece Black King, 12 := Piece White Pawn,
     3 := Piece White King)"
  "castling posP2 = 0" "en_passant posP2 = 64" "halfmove_clock posP2 = 2" "key posP2 = 0xfd98fc0fbe93b7ba"
  "key_history posP2 = [0xebed2f957946350, 0xe40bca7974404705, 0xfd98fc0fbe93b7ba]"
  by (simp_all add: move_ok_def posP2_def step_eval stepP1 hash_values fun_eq_iff)

lemma stepP3:
  "move_ok posP2 (Move 3 4 Normal NoType)"
  "mailbox (board posP3) = (\<lambda>sq. kNoPiece)(59 := Piece Black King, 12 := Piece White Pawn,
     4 := Piece White King)"
  "castling posP3 = 0" "en_passant posP3 = 64" "halfmove_clock posP3 = 3" "key posP3 = 0x172de48f9d4793ef"
  "key_history posP3 = [0xebed2f957946350, 0xe40bca7974404705, 0xfd98fc0fbe93b7ba,
     0x172de48f9d4793ef]"
  by (simp_all add: move_ok_def posP3_def step_eval stepP2 hash_values fun_eq_iff)

lemma stepP4:
  "move_ok posP3 (Move 59 60 Normal NoType)"
  "mailbox (board posP4) = mailbox boardP" "halfmove_clock posP4 = 4"
  "key posP4 = 0xebed2f957946350"
  "key_history posP4 = [0xebed2f957946350, 0xe40bca7974404705, 0xfd98fc0fbe93b7ba,
     0x172de48f9d4793ef, 0xebed2f957946350]"
  by (simp_all add: move_ok_def posP4_def step_eval stepP3 hash_values fun_eq_iff mailboxP)

lemma valid_steps:
  "valid_position posP1 \<and> ep_rank_ok posP1" "valid_position posP2 \<and> ep_rank_ok posP2"
  "valid_position posP3 \<and> ep_rank_ok posP3" "valid_position posP4 \<and> ep_rank_ok posP4"
proof -
  show 1: "valid_position posP1 \<and> ep_rank_ok posP1"
    unfolding posP1_def using made_step(2,3)[OF valid_P stepP1(1)] by simp
  then show 2: "valid_position posP2 \<and> ep_rank_ok posP2"
    unfolding posP2_def using made_step(2,3)[OF _ _ stepP2(1)] by simp
  then show 3: "valid_position posP3 \<and> ep_rank_ok posP3"
    unfolding posP3_def using made_step(2,3)[OF _ _ stepP3(1)] by simp
  then show "valid_position posP4 \<and> ep_rank_ok posP4"
    unfolding posP4_def using made_step(2,3)[OF _ _ stepP4(1)] by simp
qed

lemma make_steps:
  "make_move posP (Move 4 3 Normal NoType) = Some posP1"
  "make_move posP1 (Move 60 59 Normal NoType) = Some posP2"
  "make_move posP2 (Move 3 4 Normal NoType) = Some posP3"
  "make_move posP3 (Move 59 60 Normal NoType) = Some posP4"
  using make_move_made[OF valid_P(1) stepP1(1)]
    make_move_made[OF conjunct1[OF valid_steps(1)] stepP2(1)]
    make_move_made[OF conjunct1[OF valid_steps(2)] stepP3(1)]
    make_move_made[OF conjunct1[OF valid_steps(3)] stepP4(1)]
  by (simp_all add: posP1_def posP2_def posP3_def posP4_def)

lemma board_P4: "board posP4 = boardP"
  by (rule board_ext) (use valid_steps(4) board_ok_P stepP4(2) in \<open>simp_all add: valid_position_def\<close>)

lemma popcount_P: "popcount (0x1000000000001010 :: 64 word) = 3"
  by (simp add: popcount_def upt_64)

lemma material_P: "\<not> insufficient_material posP" "\<not> insufficient_material posP4"
  by (simp_all add: insufficient_material_def Let_def board_P4 posP_fields popcount_P boardP_fields)

text \<open>
  Claim C3, amended. In a position whose key history ends with its current key (as the
  constructor and \<open>make_move\<close> leave it), whose halfmove clock is below 100 and whose material
  is sufficient, \<open>is_draw\<close> reports a draw exactly when the current key appears at least once
  among the entries recorded before the current occurrence.
\<close>

theorem is_draw_repetition_once:
  assumes "key_history pos \<noteq> []" and "last (key_history pos) = key pos"
    and "halfmove_clock pos < 100" and "\<not> insufficient_material pos"
  shows "is_draw pos \<longleftrightarrow> 1 \<le> length (filter (\<lambda>k. k = key pos) (butlast (key_history pos)))"
  using assms(3,4) by (simp add: is_draw_def repetition_count_last[OF assms(1,2)])

text \<open>The king and pawn position as parsed: no earlier entry, no draw.\<close>

theorem is_draw_repetition_once_witness:
  "key_history posP \<noteq> [] \<and> last (key_history posP) = key posP \<and> halfmove_clock posP < 100
   \<and> \<not> insufficient_material posP
   \<and> length (filter (\<lambda>k. k = key posP) (butlast (key_history posP))) = 0
   \<and> \<not> is_draw posP"
  using is_draw_repetition_once[of posP]
  by (simp add: posP_key material_P)

text \<open>
  Claim C3 as written, with two earlier occurrences, does not hold: after Kd1 Kd8 Ke1 Ke8
  from the king and pawn position the current key occurs in exactly one earlier entry of the
  key history, the halfmove clock is 4 and there is a pawn on the board, and \<open>is_draw\<close>
  reports a draw.
\<close>

theorem is_draw_counterexample:
  "\<exists>p0 p1 p2 p3 p. from_fen fenP = Inr p0
     \<and> make_move p0 (Move 4 3 Normal NoType) = Some p1
     \<and> make_move p1 (Move 60 59 Normal NoType) = Some p2
     \<and> make_move p2 (Move 3 4 Normal NoType) = Some p3
     \<and> make_move p3 (Move 59 60 Normal NoType) = Some p
     \<and> halfmove_clock p = 4 \<and> \<not> insufficient_material p
     \<and> last (key_history p) = key p
     \<and> length (filter (\<lambda>k. k = key p) (butlast (key_history p))) = 1
     \<and> is_draw p"
proof -
  have "halfmove_clock posP4 = 4 \<and> \<not> insufficient_material posP4
     \<and> last (key_history posP4) = key posP4
     \<and> length (filter (\<lambda>k. k = key posP4) (butlast (key_history posP4))) = 1
     \<and> is_draw posP4"
    by (simp add: material_P stepP4 is_draw_def repetition_count_def)
  with from_fen_P make_steps show ?thesis by blast
qed

section \<open>Castling moves\<close>

lemma gen_pawn_moves_flags:
  assumes "gen_pawn_moves pos = Some ms" "m \<in> set ms"
  shows "flag m \<noteq> CastleKingside \<and> flag m \<noteq> CastleQueenside"
  using assms
  by (auto simp add: gen_pawn_moves_def Let_def add_promotions_def split: if_splits bind_splits)

lemma gen_piece_moves_flags:
  assumes "gen_piece_moves pos pt = Some ms" "m \<in> set ms"
  shows "flag m = Normal"
proof -
  let ?f = "\<lambda>from. do {
              attacks \<leftarrow> attacks_from pt from (occupied_all (board pos));
              Some (map (\<lambda>to. Move from to Normal NoType)
                (bb_squares (attacks AND NOT (occupied (board pos) (side_to_move pos))))) }"
  from assms(1) obtain ys where ys: "those (map ?f (bb_squares (pieces (board pos) (side_to_move pos) pt))) = Some ys"
    and ms: "ms = concat ys"
    by (auto simp add: gen_piece_moves_def Let_def)
  from assms(2) ms obtain y where y: "y \<in> set ys" "m \<in> set y" by auto
  from those_map_Some[OF ys y(1)] obtain x where "?f x = Some y" by blast
  with y(2) show ?thesis by (auto split: bind_splits)
qed

lemma map_option_Not_True: "map_option Not x = Some True \<longleftrightarrow> x = Some False"
  by (cases x) auto

lemma castle_side_list:
  assumes "(if c then do { ok \<leftarrow> x; Some (if ok then [mv] else []) } else Some []) = Some l"
  shows "(l = [mv] \<and> c \<and> x = Some True) \<or> (l = [] \<and> \<not> (c \<and> x = Some True))"
  using assms by (auto split: if_splits bind_splits)

lemma gen_castling_iff:
  assumes "gen_castling pos = Some cs"
  shows "(\<exists>m\<in>set cs. flag m = CastleKingside) \<longleftrightarrow> kingside_ready pos"
    and "(\<exists>m\<in>set cs. flag m = CastleQueenside) \<longleftrightarrow> queenside_ready pos"
    and "\<forall>m\<in>set cs.
           m = Move (king_square (board pos) (side_to_move pos))
                 (make_square 6 (home_rank (side_to_move pos))) CastleKingside NoType
         \<or> m = Move (king_square (board pos) (side_to_move pos))
                 (make_square 2 (home_rank (side_to_move pos))) CastleQueenside NoType"
proof -
  define us where "us = side_to_move pos"
  define them where "them = opposite us"
  define r where "r = home_rank us"
  define k where "k = king_square (board pos) us"
  define ks where "ks = (if us = White then kWhiteKingside else kBlackKingside)"
  define qs where "qs = (if us = White then kWhiteQueenside else kBlackQueenside)"
  define K where "K = and_also (is_empty (board pos) (make_square 5 r))
                      (and_also (is_empty (board pos) (make_square 6 r))
                        (and_also (map_option Not (is_square_attacked pos (make_square 5 r) them))
                                  (map_option Not (is_square_attacked pos (make_square 6 r) them))))"
  define Q where "Q = and_also (is_empty (board pos) (make_square 1 r))
                      (and_also (is_empty (board pos) (make_square 2 r))
                        (and_also (is_empty (board pos) (make_square 3 r))
                          (and_also (map_option Not (is_square_attacked pos (make_square 2 r) them))
                                    (map_option Not (is_square_attacked pos (make_square 3 r) them)))))"
  define mk where "mk = Move k (make_square 6 r) CastleKingside NoType"
  define mq where "mq = Move k (make_square 2 r) CastleQueenside NoType"
  have r: "r = (if us = White then 0 else 7)" by (simp add: r_def home_rank_def)
  have sq: "make_square 5 r < 64" "make_square 6 r < 64" "make_square 1 r < 64"
    "make_square 2 r < 64" "make_square 3 r < 64"
    by (simp_all add: make_square_def r)
  have g: "gen_castling pos =
     do { in_check \<leftarrow> is_square_attacked pos k them;
          if in_check then Some []
          else do {
            kingside \<leftarrow> (if castling pos AND ks \<noteq> 0
                          then do { ok \<leftarrow> K; Some (if ok then [mk] else []) } else Some []);
            queenside \<leftarrow> (if castling pos AND qs \<noteq> 0
                           then do { ok \<leftarrow> Q; Some (if ok then [mq] else []) } else Some []);
            Some (kingside @ queenside) } }"
    unfolding gen_castling_def Let_def us_def[symmetric] them_def[symmetric] k_def[symmetric]
      r[symmetric] ks_def[symmetric] qs_def[symmetric] K_def Q_def mk_def mq_def ..
  have kr: "kingside_ready pos \<longleftrightarrow>
      is_square_attacked pos k them = Some False \<and> castling pos AND ks \<noteq> 0 \<and> K = Some True"
    unfolding kingside_ready_def Let_def us_def[symmetric] them_def[symmetric] r_def[symmetric]
      ks_def[symmetric] is_in_check_def k_def[symmetric] K_def
    using sq by (auto simp add: and_also_True map_option_Not_True is_empty_def)
  have qr: "queenside_ready pos \<longleftrightarrow>
      is_square_attacked pos k them = Some False \<and> castling pos AND qs \<noteq> 0 \<and> Q = Some True"
    unfolding queenside_ready_def Let_def us_def[symmetric] them_def[symmetric] r_def[symmetric]
      qs_def[symmetric] is_in_check_def k_def[symmetric] Q_def
    using sq by (auto simp add: and_also_True map_option_Not_True is_empty_def)
  from assms g obtain chk where chk: "is_square_attacked pos k them = Some chk"
    by (auto split: bind_splits)
  have fl: "flag mk = CastleKingside" "flag mq = CastleQueenside" by (simp_all add: mk_def mq_def)
  have "((\<exists>m\<in>set cs. flag m = CastleKingside) \<longleftrightarrow> kingside_ready pos)
      \<and> ((\<exists>m\<in>set cs. flag m = CastleQueenside) \<longleftrightarrow> queenside_ready pos)
      \<and> (\<forall>m\<in>set cs. m = mk \<or> m = mq)"
  proof (cases chk)
    case True
    with assms g chk have "cs = []" by simp
    with True chk kr qr show ?thesis by simp
  next
    case False
    with assms g chk obtain kl ql where
      kl: "(if castling pos AND ks \<noteq> 0
            then do { ok \<leftarrow> K; Some (if ok then [mk] else []) } else Some []) = Some kl"
      and ql: "(if castling pos AND qs \<noteq> 0
            then do { ok \<leftarrow> Q; Some (if ok then [mq] else []) } else Some []) = Some ql"
      and cs: "cs = kl @ ql"
      by (auto split: bind_splits)
    from castle_side_list[OF kl] castle_side_list[OF ql] cs False chk kr qr fl
    show ?thesis by auto
  qed
  then show "(\<exists>m\<in>set cs. flag m = CastleKingside) \<longleftrightarrow> kingside_ready pos"
    and "(\<exists>m\<in>set cs. flag m = CastleQueenside) \<longleftrightarrow> queenside_ready pos"
    and "\<forall>m\<in>set cs.
           m = Move (king_square (board pos) (side_to_move pos))
                 (make_square 6 (home_rank (side_to_move pos))) CastleKingside NoType
         \<or> m = Move (king_square (board pos) (side_to_move pos))
                 (make_square 2 (home_rank (side_to_move pos))) CastleQueenside NoType"
    unfolding mk_def mq_def k_def r_def us_def by simp_all
qed

lemma upt_1_7: "[Suc 0..<7] = [1, 2, 3, 4, 5, 6]" "[8..<7] = []" "[Suc 0..<0] = []"
  by code_simp+

lemma rook_mask_h1: "rook_mask 7 = 0x8080808080807E"
  by (simp add: rook_mask_def file_of_def rank_of_def make_square_def bb_set_bit_def square_bb_def
      kEmptyBB_def Let_def upt_1_7)

lemma rook_h1: "rook_attacks 7 0x1000000000800090 = Some 0x808070"
  by (simp add: rook_attacks_def rook_mask_h1 rook_attacks_slow_def ray_attacks_def
      ray_loop.simps file_of_def rank_of_def make_square_def bb_set_bit_def square_bb_def
      test_bit_def kEmptyBB_def)

lemma split_fenA: "split_spaces fenA = [''4k3/8/8/8/8/7n/8/4K2R'', ''w'', ''K'', ''-'', ''0'', ''1'']"
  by (simp add: fenA_def split_spaces.simps)

lemma placeA: "placement_loop fen ''4k3/8/8/8/8/7n/8/4K2R'' 7 0 empty_board = Inr (0, 8, boardA)"
  by (simp add: boardA_def put_piece_eq char_code_def from_fen_char_def make_square_def)

lemma board_ok_A: "board_ok boardA"
  unfolding boardA_def
  by (intro board_ok_place board_ok_empty) (simp_all add: empty_board_def)

lemma from_fen_A: "from_fen fenA = Inr posA"
  unfolding from_fen_def split_fenA Let_def
  by (simp only: nth_Cons_0 placeA)
     (simp add: new_Position_key board_ok_A fen_eval posA_def keyA_def kWhiteKingside_def)

lemma posA_fields:
  "board posA = boardA" "side_to_move posA = White" "castling posA = 1" "en_passant posA = 64"
  by (simp_all add: posA_def kWhiteKingside_def kNoSquare_def)

lemma boardA_fields:
  "pieces boardA White Pawn = 0" "pieces boardA White Knight = 0"
  "pieces boardA White Bishop = 0" "pieces boardA White Rook = 0x80" "pieces boardA White Queen = 0"
  "pieces boardA White King = 0x10"
  "pieces boardA Black Pawn = 0" "pieces boardA Black Knight = 0x800000"
  "pieces boardA Black Bishop = 0" "pieces boardA Black Rook = 0" "pieces boardA Black Queen = 0"
  "pieces boardA Black King = 0x1000000000000000"
  "occupied boardA White = 0x90" "occupied boardA Black = 0x1000000000800000"
  "occupied_all boardA = 0x1000000000800090"
  by (simp_all add: boardA_def board_eval)

lemma mailboxA: "mailbox boardA = (\<lambda>sq. kNoPiece)(60 := Piece Black King, 23 := Piece Black Knight,
    4 := Piece White King, 7 := Piece White Rook)"
  by (simp add: boardA_def empty_board_def)

lemma pawnA: "gen_pawn_moves posA = Some []"
  by (simp add: gen_pawn_moves_def posA_fields boardA_fields gen_eval)

lemma rookA: "gen_piece_moves posA Rook = Some [Move 7 5 Normal NoType, Move 7 6 Normal NoType,
    Move 7 15 Normal NoType, Move 7 23 Normal NoType]"
  by (simp add: gen_piece_moves_def posA_fields boardA_fields rook_h1 gen_eval)

lemma kingA: "gen_piece_moves posA King = Some [Move 4 3 Normal NoType, Move 4 5 Normal NoType,
    Move 4 11 Normal NoType, Move 4 12 Normal NoType, Move 4 13 Normal NoType]"
  by (simp add: gen_piece_moves_def posA_fields boardA_fields gen_eval)

lemma othersA:
  "gen_piece_moves posA Knight = Some []" "gen_piece_moves posA Bishop = Some []"
  "gen_piece_moves posA Queen = Some []"
  by (simp_all add: gen_piece_moves_def posA_fields boardA_fields bb_squares_zero)

lemma attackedA:
  "is_in_check posA White = Some False"
  "is_square_attacked posA 5 Black = Some False"
  "is_square_attacked posA 6 Black = Some True"
  by (simp_all add: is_in_check_def posA_fields boardA_fields king_square_def
      is_square_attacked_no_sliders gen_eval)

lemma castleA: "gen_castling posA = Some []"
  using attackedA
  by (simp add: gen_castling_def is_in_check_def posA_fields boardA_fields king_square_def
      mailboxA is_empty_def and_also_def make_square_def kWhiteKingside_def kWhiteQueenside_def
      kNoPiece_def Let_def)

lemma pseudo_legal_A: "pseudo_legal posA = Some movesA"
  by (simp add: pseudo_legal_def pawnA rookA kingA othersA castleA movesA_def kMaxMoves_def)

text \<open>
  Claim C4, amended. Whenever \<open>pseudo_legal\<close> returns a list, it holds a kingside castling
  move exactly when the side to move has the kingside right, the squares f and g of its back
  rank are empty, its king is not in check, and neither f nor g is attacked by the opponent;
  and a queenside castling move exactly when the side has the queenside right, b, c and d
  are empty, the king is not in check, and neither c nor d is attacked. The castling moves
  of the list go from the king's square to g, respectively c.
\<close>

theorem castling_generated_iff:
  assumes "pseudo_legal pos = Some ms"
  shows "((\<exists>m\<in>set ms. flag m = CastleKingside) \<longleftrightarrow> kingside_ready pos)
       \<and> ((\<exists>m\<in>set ms. flag m = CastleQueenside) \<longleftrightarrow> queenside_ready pos)
       \<and> (\<forall>m\<in>set ms. flag m = CastleKingside \<longrightarrow>
             m = Move (king_square (board pos) (side_to_move pos))
                   (make_square 6 (home_rank (side_to_move pos))) CastleKingside NoType)
       \<and> (\<forall>m\<in>set ms. flag m = CastleQueenside \<longrightarrow>
             m = Move (king_square (board pos) (side_to_move pos))
                   (make_square 2 (home_rank (side_to_move pos))) CastleQueenside NoType)"
proof -
  from assms obtain pawn knight bishop rook queen king castle where
    g: "gen_pawn_moves pos = Some pawn" "gen_piece_moves pos Knight = Some knight"
       "gen_piece_moves pos Bishop = Some bishop" "gen_piece_moves pos Rook = Some rook"
       "gen_piece_moves pos Queen = Some queen" "gen_piece_moves pos King = Some king"
       "gen_castling pos = Some castle"
    and ms: "ms = pawn @ knight @ bishop @ rook @ queen @ king @ castle"
    by (auto simp add: pseudo_legal_def Let_def split: bind_splits if_splits)
  have other: "flag m \<noteq> CastleKingside \<and> flag m \<noteq> CastleQueenside"
    if "m \<in> set (pawn @ knight @ bishop @ rook @ queen @ king)" for m
    using that gen_pawn_moves_flags[OF g(1), of m] gen_piece_moves_flags[OF g(2), of m]
      gen_piece_moves_flags[OF g(3), of m] gen_piece_moves_flags[OF g(4), of m]
      gen_piece_moves_flags[OF g(5), of m] gen_piece_moves_flags[OF g(6), of m]
    by auto
  have k: "(\<exists>m\<in>set ms. flag m = CastleKingside) \<longleftrightarrow> (\<exists>m\<in>set castle. flag m = CastleKingside)"
    and q: "(\<exists>m\<in>set ms. flag m = CastleQueenside) \<longleftrightarrow> (\<exists>m\<in>set castle. flag m = CastleQueenside)"
    and c: "\<And>m. m \<in> set ms \<Longrightarrow> flag m = CastleKingside \<or> flag m = CastleQueenside \<Longrightarrow> m \<in> set castle"
    unfolding ms using other by auto
  note gc = gen_castling_iff[OF g(7)]
  have 3: "m = Move (king_square (board pos) (side_to_move pos))
                   (make_square 6 (home_rank (side_to_move pos))) CastleKingside NoType"
    if "m \<in> set ms" "flag m = CastleKingside" for m
  proof -
    from c[OF that(1)] that(2) have "m \<in> set castle" by simp
    with gc(3) that(2) show ?thesis by auto
  qed
  have 4: "m = Move (king_square (board pos) (side_to_move pos))
                   (make_square 2 (home_rank (side_to_move pos))) CastleQueenside NoType"
    if "m \<in> set ms" "flag m = CastleQueenside" for m
  proof -
    from c[OF that(1)] that(2) have "m \<in> set castle" by simp
    with gc(3) that(2) show ?thesis by auto
  qed
  from gc(1,2) k q 3 4 show ?thesis by simp
qed

text \<open>
  King e1 and rook h1 with the kingside right, a black knight on h3 attacking g1: no
  castling move is listed, and \<open>kingside_ready\<close> fails on its last condition.
\<close>

theorem castling_generated_iff_witness:
  "pseudo_legal posA = Some movesA \<and> \<not> (\<exists>m\<in>set movesA. flag m = CastleKingside)
   \<and> \<not> kingside_ready posA \<and> \<not> queenside_ready posA"
  using castling_generated_iff[of posA movesA]
  by (simp add: pseudo_legal_A movesA_def)

text \<open>
  Claim C4 as written, with only the transit square f required not to be attacked on the
  kingside, does not hold. In \<open>4k3/8/8/8/8/7n/8/4K2R w K - 0 1\<close> White has the kingside
  right, f1 and g1 are empty, the king is not in check and f1 is not attacked; g1 is
  attacked by the knight on h3, and the generator lists no castling move.
\<close>

theorem castling_counterexample:
  "\<exists>pos ms. from_fen fenA = Inr pos \<and> pseudo_legal pos = Some ms
     \<and> side_to_move pos = White \<and> castling pos AND kWhiteKingside \<noteq> 0
     \<and> is_empty (board pos) 5 = Some True \<and> is_empty (board pos) 6 = Some True
     \<and> is_in_check pos White = Some False
     \<and> is_square_attacked pos 5 Black = Some False
     \<and> is_square_attacked pos 6 Black = Some True
     \<and> \<not> (\<exists>m\<in>set ms. flag m = CastleKingside)"
  using from_fen_A pseudo_legal_A attackedA
  by (simp add: posA_fields mailboxA is_empty_def kWhiteKingside_def movesA_def kNoPiece_def)

section \<open>The root search\<close>

lemma find_best_bound:
  "bi < j \<Longrightarrow> find_best scs j bi bs < j + length scs"
proof (induction scs arbitrary: j bi bs)
  case Nil
  then show ?case by simp
next
  case (Cons sc scs)
  have "find_best scs (Suc j) j sc < Suc j + length scs"
    by (rule Cons.IH) simp
  moreover have "find_best scs (Suc j) bi bs < Suc j + length scs"
    by (rule Cons.IH) (use Cons.prems in simp)
  ultimately show ?case by simp
qed

lemma order_loop_set:
  "set (order_loop i ml) = set ml \<and> length (order_loop i ml) = length ml"
proof (induction i ml rule: order_loop.induct)
  case (1 i ml)
  show ?case
  proof (cases "i < length ml")
    case False
    then show ?thesis by (simp add: order_loop.simps)
  next
    case True
    define bi where "bi = find_best (map snd (drop (i + 1) ml)) (i + 1) i (snd (ml ! i))"
    define ml' where "ml' = (if bi \<noteq> i then ml[i := ml ! bi, bi := ml ! i] else ml)"
    have "bi < i + 1 + length (map snd (drop (i + 1) ml))"
      unfolding bi_def by (rule find_best_bound) simp
    with True have b: "bi < length ml" by simp
    have e: "set ml' = set ml \<and> length ml' = length ml"
      unfolding ml'_def using True b by simp
    from 1[OF True bi_def] have "set (order_loop (i + 1) ml') = set ml' \<and>
        length (order_loop (i + 1) ml') = length ml'"
      unfolding ml'_def by simp
    moreover have "order_loop i ml = order_loop (i + 1) ml'"
      using True by (subst order_loop.simps) (simp add: Let_def bi_def ml'_def)
    ultimately show ?thesis using e by simp
  qed
qed

lemma those_map_fst:
  "those (map (\<lambda>m. map_option (Pair m) (f m)) ml) = Some scored \<Longrightarrow> map fst scored = ml"
proof (induction ml arbitrary: scored)
  case Nil
  then show ?case by simp
next
  case (Cons m ml)
  then show ?case by (auto split: option.splits)
qed

lemma order_moves_set:
  assumes "order_moves s pos ml tt_move ply = Some ordered"
  shows "set ordered = set ml" "length ordered = length ml"
proof -
  from assms obtain scored where
    sc: "those (map (\<lambda>m. map_option (Pair m) (move_score s pos m tt_move ply)) ml) = Some scored"
    and o: "ordered = map fst (order_loop 0 scored)"
    by (auto simp add: order_moves_def split: bind_splits)
  have "set ordered = fst ` set scored" using o order_loop_set[of 0 scored] by simp
  also have "\<dots> = set (map fst scored)" by simp
  finally show "set ordered = set ml" using those_map_fst[OF sc] by simp
  have "length ordered = length (map fst scored)" using o order_loop_set[of 0 scored] by simp
  then show "length ordered = length ml" using those_map_fst[OF sc] by simp
qed

lemma deepening_loop_depth:
  assumes "deepening_loop negamax env limits cur_depth (s, pos, rm, cb, bs, cd)
             = Some (s', pos', rm', cb', bs', cd')"
  shows "(cb' = cb \<and> bs' = bs \<and> cd' = cd) \<or> cur_depth \<le> cd'"
  using assms
proof (induction negamax env limits cur_depth "(s, pos, rm, cb, bs, cd)"
    arbitrary: s pos rm cb bs cd rule: deepening_loop.induct)
  case (1 negamax env limits cur_depth s pos root_moves cur_best best_score completed_depth)
  show ?case
  proof (cases "cur_depth \<le> max_depth limits")
    case False
    with 1(2) show ?thesis by (simp add: deepening_loop.simps)
  next
    case le: True
    obtain stop s1 where st: "should_stop env s = (stop, s1)" by (cases "should_stop env s")
    show ?thesis
    proof (cases stop)
      case True
      with 1(2) le st show ?thesis by (simp add: deepening_loop.simps)
    next
      case ns: False
      from 1(2) le st ns obtain s2 pos2 isc ib al where
        rl: "root_loop negamax env cur_depth kInfScore root_moves
               (s1, pos, - kInfScore, kNullMove, - kInfScore) = Some (s2, pos2, isc, ib, al)"
        by (subst (asm) deepening_loop.simps) (auto split: option.splits)
      obtain stop2 s3 where st2: "should_stop env s2 = (stop2, s3)" by (cases "should_stop env s2")
      show ?thesis
      proof (cases "stop2 \<or> is_null ib")
        case True
        with 1(2) le st ns rl st2 show ?thesis
          by (subst (asm) deepening_loop.simps) (auto split: if_splits)
      next
        case False
        with 1(2) le st ns rl st2 have
          d: "deepening_loop negamax env limits (cur_depth + 1)
               (s3, pos2, move_to_front ib root_moves, ib, isc, cur_depth)
              = Some (s', pos', rm', cb', bs', cd')"
          by (subst (asm) deepening_loop.simps) auto
        have "(cb' = ib \<and> bs' = isc \<and> cd' = cur_depth) \<or> cur_depth + 1 \<le> cd'"
          by (rule 1(1)[OF le refl st[symmetric] ns rl refl refl refl refl refl st2[symmetric] _ _ d])
            (use False in auto)
        then show ?thesis by auto
      qed
    qed
  qed
qed

lemma uci_not_empty: "uci m \<noteq> []"
  by (simp add: uci_def square_name_def Let_def)

lemma score_P:
  assumes "killers s = (\<lambda>ply k. kNullMove)" "history_table s = (\<lambda>c f t. 0)"
  shows "\<forall>m\<in>set movesP. move_score s posP m kNullMove 0 = Some 0"
  by (simp add: movesP_def move_score_def posP_fields mailboxP kNullMove_def is_null_def
      kMaxPly_def kNoPiece_def assms)

lemma order_P:
  assumes "killers s = (\<lambda>ply k. kNullMove)" "history_table s = (\<lambda>c f t. 0)"
  shows "order_moves s posP movesP kNullMove 0 = Some movesP"
  using score_P[OF assms]
  by (simp add: order_moves_def movesP_def order_loop.simps)

lemma deepening_cancelled:
  "deepening_loop negamax cancelled_env limits_example 1 (s, pos, rm, cb, bs, cd)
     = Some (s\<lparr> flag_loads := flag_loads s + 1 \<rparr>, pos, rm, cb, bs, cd)"
  by (subst deepening_loop.simps)
     (simp add: limits_example_def should_stop_def cancelled_env_def Let_def)

lemma limits_example_time: "time_limit_ms limits_example = - 1"
  by (simp add: limits_example_def)

section \<open>Moves listed as legal\<close>

lemma make_move_squares:
  assumes "make_move pos m = Some p"
  shows "from_sq m < 64" "to_sq m < 64"
proof -
  from assms obtain piece where "piece_at (board pos) (from_sq m) = Some piece"
    unfolding make_move_def by (cases "piece_at (board pos) (from_sq m)") auto
  then show "from_sq m < 64" by (simp add: piece_at_def split: if_splits)
  show "to_sq m < 64"
  proof (rule ccontr)
    assume "\<not> to_sq m < 64"
    then have "kCastleMask (to_sq m) = None" by (simp add: kCastleMask_def)
    then have "make_move pos m = None"
      unfolding make_move_def by (auto simp add: Let_def split: bind_splits)
    with assms show False by simp
  qed
qed

lemma pos_remove_piece_empty:
  "ptype (mailbox (board q) sq) = NoType \<Longrightarrow> pos_remove_piece q sq = None"
  by (simp add: pos_remove_piece_def remove_piece_eq)

lemma toggle_piece_hash_empty: "ptype piece = NoType \<Longrightarrow> toggle_piece_hash q piece sq = None"
  by (simp add: toggle_piece_hash_def piece_key_def)

lemma make_null_move_undefined: "make_move pos (Move 0 0 Normal NoType) = None"
proof (cases "ptype (mailbox (board pos) 0) = NoType")
  case True
  then show ?thesis by (simp add: make_move_def Let_def toggle_piece_hash_empty)
next
  case False
  then have ne: "mailbox (board pos) 0 \<noteq> kNoPiece" by (auto simp add: kNoPiece_def)
  with False show ?thesis
    by (simp add: make_move_def Let_def toggle_piece_hash_eq pos_remove_piece_eq
        pos_remove_piece_empty)
qed

lemma make_move_not_null: "make_move pos m = Some p \<Longrightarrow> \<not> is_null m"
  using make_null_move_undefined[of pos] by (cases m) (auto simp add: is_null_def)

lemma legal_loop_made_moves:
  assumes "legal_loop ms us pos acc = Some (r, p)" "m \<in> set r"
  shows "m \<in> set acc \<or> (m \<in> set ms \<and> from_sq m < 64 \<and> to_sq m < 64 \<and> \<not> is_null m)"
  using assms
proof (induction ms arbitrary: pos acc)
  case Nil
  then show ?case by simp
next
  case (Cons m0 ms)
  from Cons.prems(1) obtain p1 chk p2 where
    mk: "make_move pos m0 = Some p1"
    and rest: "legal_loop ms us p2 (if \<not> chk then acc @ [m0] else acc) = Some (r, p)"
    by (auto simp add: Let_def split: bind_splits)
  note m0 = make_move_squares[OF mk] make_move_not_null[OF mk]
  from Cons.IH[OF rest Cons.prems(2)] m0 show ?case by (auto split: if_splits)
qed

lemma legal_moves_on_board:
  assumes "legal pos = Some (ms, p)" "m \<in> set ms"
  shows "from_sq m < 64" "to_sq m < 64" "\<not> is_null m"
proof -
  from assms(1) obtain l where "legal_loop l (side_to_move pos) pos [] = Some (ms, p)"
    by (auto simp add: legal_def split: bind_splits)
  from legal_loop_made_moves[OF this assms(2)]
  show "from_sq m < 64" "to_sq m < 64" "\<not> is_null m" by simp_all
qed

lemma gen_pawn_moves_promotion:
  assumes "gen_pawn_moves pos = Some ms" "m \<in> set ms"
  shows "(flag m = Promotion \<and> promotion m \<in> {Knight, Bishop, Rook, Queen})
       \<or> (flag m \<noteq> Promotion \<and> promotion m = NoType)"
  using assms
  by (auto simp add: gen_pawn_moves_def Let_def add_promotions_def kPromotions_def
      split: if_splits bind_splits)

lemma gen_castling_promotion:
  assumes "gen_castling pos = Some ms" "m \<in> set ms"
  shows "flag m \<noteq> Promotion \<and> promotion m = NoType"
  using gen_castling_iff(3)[OF assms(1)] assms(2) by auto

lemma gen_piece_moves_promotion:
  assumes "gen_piece_moves pos pt = Some ms" "m \<in> set ms"
  shows "flag m = Normal \<and> promotion m = NoType"
proof -
  let ?f = "\<lambda>from. do {
              attacks \<leftarrow> attacks_from pt from (occupied_all (board pos));
              Some (map (\<lambda>to. Move from to Normal NoType)
                (bb_squares (attacks AND NOT (occupied (board pos) (side_to_move pos))))) }"
  from assms(1) obtain ys where ys: "those (map ?f (bb_squares (pieces (board pos) (side_to_move pos) pt))) = Some ys"
    and ms: "ms = concat ys"
    by (auto simp add: gen_piece_moves_def Let_def)
  from assms(2) ms obtain y where y: "y \<in> set ys" "m \<in> set y" by auto
  from those_map_Some[OF ys y(1)] obtain x where "?f x = Some y" by blast
  with y(2) show ?thesis by (auto split: bind_splits)
qed

lemma pseudo_legal_promotion:
  assumes "pseudo_legal pos = Some ms" "m \<in> set ms"
  shows "(flag m = Promotion \<and> promotion m \<in> {Knight, Bishop, Rook, Queen})
       \<or> (flag m \<noteq> Promotion \<and> promotion m = NoType)"
proof -
  from assms(1) obtain pawn knight bishop rook queen king castle where
    g: "gen_pawn_moves pos = Some pawn" "gen_piece_moves pos Knight = Some knight"
       "gen_piece_moves pos Bishop = Some bishop" "gen_piece_moves pos Rook = Some rook"
       "gen_piece_moves pos Queen = Some queen" "gen_piece_moves pos King = Some king"
       "gen_castling pos = Some castle"
    and ms: "ms = pawn @ knight @ bishop @ rook @ queen @ king @ castle"
    by (auto simp add: pseudo_legal_def Let_def split: bind_splits if_splits)
  from assms(2) ms consider "m \<in> set pawn" | "m \<in> set knight" | "m \<in> set bishop"
    | "m \<in> set rook" | "m \<in> set queen" | "m \<in> set king" | "m \<in> set castle" by auto
  then show ?thesis
  proof cases
    case 1 then show ?thesis by (rule gen_pawn_moves_promotion[OF g(1)])
  next
    case 2 with gen_piece_moves_promotion[OF g(2)] show ?thesis by auto
  next
    case 3 with gen_piece_moves_promotion[OF g(3)] show ?thesis by auto
  next
    case 4 with gen_piece_moves_promotion[OF g(4)] show ?thesis by auto
  next
    case 5 with gen_piece_moves_promotion[OF g(5)] show ?thesis by auto
  next
    case 6 with gen_piece_moves_promotion[OF g(6)] show ?thesis by auto
  next
    case 7 with gen_castling_promotion[OF g(7)] show ?thesis by auto
  qed
qed

section \<open>Move text\<close>

text \<open>
  Claim C6, amended. For every position and every move \<open>m\<close> that \<open>legal\<close> lists for it,
  parsing the UCI text of \<open>m\<close> gives back the squares and the promotion type of \<open>m\<close>, with
  the flag \<open>Promotion\<close> when \<open>m\<close> is a promotion and \<open>Normal\<close> otherwise; so the result is
  \<open>m\<close> itself exactly when the flag of \<open>m\<close> is \<open>Normal\<close> or \<open>Promotion\<close>, and differs from \<open>m\<close>
  in the flag for double pawn pushes, en-passant captures and castling moves.
\<close>

theorem uci_roundtrip_loses_flag:
  assumes "legal pos = Some (ms, p)" and "m \<in> set ms"
  shows "from_uci (uci m) =
           Move (from_sq m) (to_sq m) (if flag m = Promotion then Promotion else Normal) (promotion m)
       \<and> (from_uci (uci m) = m \<longleftrightarrow> flag m = Normal \<or> flag m = Promotion)"
proof -
  from legal_subset[OF assms(1)] assms(2) obtain l where
    "pseudo_legal pos = Some l" "m \<in> set l" by auto
  note pr = pseudo_legal_promotion[OF this]
  note on = legal_moves_on_board[OF assms]
  have e: "from_uci (uci m) =
           Move (from_sq m) (to_sq m) (if flag m = Promotion then Promotion else Normal) (promotion m)"
    using from_uci_uci[OF on(1,2)] pr by auto
  show ?thesis
    unfolding e by (cases m) auto
qed

text \<open>The pawn push e2-e3 of the king and pawn position.\<close>

theorem uci_roundtrip_loses_flag_witness:
  "legal posP = Some (movesP, posP) \<and> Move 12 20 Normal NoType \<in> set movesP
   \<and> from_uci (uci (Move 12 20 Normal NoType)) = Move 12 20 Normal NoType"
  using uci_roundtrip_loses_flag[of posP movesP posP "Move 12 20 Normal NoType"]
  by (simp add: legal_P movesP_def)

text \<open>
  Claim C6 as written does not hold: the double pawn push e2-e4 is listed as legal in the
  king and pawn position, its text is \<open>e2e4\<close>, and \<open>from_uci\<close> reads that text as a move with
  the flag \<open>Normal\<close>.
\<close>

theorem uci_roundtrip_counterexample:
  "\<exists>pos ms p. from_fen fenP = Inr pos \<and> legal pos = Some (ms, p)
     \<and> Move 12 28 DoublePawn NoType \<in> set ms
     \<and> uci (Move 12 28 DoublePawn NoType) = ''e2e4''
     \<and> from_uci (uci (Move 12 28 DoublePawn NoType)) = Move 12 28 Normal NoType
     \<and> from_uci (uci (Move 12 28 DoublePawn NoType)) \<noteq> Move 12 28 DoublePawn NoType"
proof -
  have u: "uci (Move 12 28 DoublePawn NoType) = ''e2e4''"
    by code_simp
  have "from_uci ''e2e4'' = Move 12 28 Normal NoType"
    by (simp add: from_uci_def parse_square_def char_code_def make_square_def kNoSquare_def)
  with u from_fen_P legal_P show ?thesis by (simp add: movesP_def)
qed

section \<open>The result of the root search\<close>

lemma search_from_start:
  "search negamax env s0 pos0 limits =
     do {
       (root_moves, pos) \<leftarrow> legal pos0;
       if root_moves = []
       then do {
         chk \<leftarrow> is_in_check pos (side_to_move pos);
         Some (if chk
               then (\<lparr> res_best_move = kNullMove, score_cp = - kMateScore, res_depth = 0,
                        res_nodes = nodes (search_start env s0 limits) \<rparr>,
                     search_start env s0 limits, pos)
               else (\<lparr> res_best_move = kNullMove, score_cp = 0, res_depth = 0,
                        res_nodes = nodes (search_start env s0 limits) \<rparr>,
                     search_start env s0 limits, pos))
       }
       else do {
         root_moves \<leftarrow> order_moves (search_start env s0 limits) pos root_moves kNullMove 0;
         (s, pos, root_moves, best_move, best_score, completed_depth) \<leftarrow>
           deepening_loop negamax env limits 1
             (search_start env s0 limits, pos, root_moves, root_moves ! 0, - kInfScore, 0);
         Some (\<lparr> res_best_move = best_move, score_cp = best_score,
                  res_depth = completed_depth, res_nodes = nodes s \<rparr>, s, pos)
       }
     }"
  unfolding search_def search_start_def Let_def ..

lemma root_loop_best:
  assumes "root_loop negamax env d beta ms (s, pos, sc, ib, al) = Some (s', pos', sc', ib', al')"
  shows "ib' = ib \<or> ib' \<in> set ms"
  using assms
proof (induction ms arbitrary: s pos sc ib al)
  case Nil
  then show ?case by simp
next
  case (Cons m ms)
  obtain stop s1 where st: "should_stop env s = (stop, s1)" by (cases "should_stop env s")
  show ?case
  proof (cases stop)
    case True
    with Cons.prems st show ?thesis by simp
  next
    case False
    with Cons.prems st obtain s2 pos2 sc2 ib2 al2 where
      r: "root_loop negamax env d beta ms (s2, pos2, sc2, ib2, al2) = Some (s', pos', sc', ib', al')"
      and i: "ib2 = m \<or> ib2 = ib"
      by (auto simp add: Let_def split: bind_splits if_splits prod.splits)
    from Cons.IH[OF r] i show ?thesis by auto
  qed
qed

lemma set_move_to_front [simp]: "set (move_to_front bm ml) = set ml"
proof (cases "bm \<in> set ml")
  case False
  then show ?thesis by (simp add: move_to_front_def)
next
  case True
  have "x \<in> set (bm # remove1 bm ml) \<longleftrightarrow> x \<in> set ml" for x
    using True by (cases "x = bm") (simp_all add: in_set_remove1)
  with True show ?thesis by (auto simp add: move_to_front_def)
qed

lemma is_null_kNullMove [simp]: "is_null kNullMove"
  by (simp add: is_null_def kNullMove_def)

lemma deepening_loop_best:
  assumes "deepening_loop negamax env limits cur_depth (s, pos, rm, cb, bs, cd)
             = Some (s', pos', rm', cb', bs', cd')"
    and "cb \<in> set rm" and "\<not> is_null cb"
  shows "cb' \<in> set rm \<and> \<not> is_null cb'"
  using assms
proof (induction negamax env limits cur_depth "(s, pos, rm, cb, bs, cd)"
    arbitrary: s pos rm cb bs cd rule: deepening_loop.induct)
  case (1 negamax env limits cur_depth s pos root_moves cur_best best_score completed_depth)
  show ?case
  proof (cases "cur_depth \<le> max_depth limits")
    case False
    with 1(2,3,4) show ?thesis by (simp add: deepening_loop.simps)
  next
    case le: True
    obtain stop s1 where st: "should_stop env s = (stop, s1)" by (cases "should_stop env s")
    show ?thesis
    proof (cases stop)
      case True
      with 1(2,3,4) le st show ?thesis by (simp add: deepening_loop.simps)
    next
      case ns: False
      from 1(2) le st ns obtain s2 pos2 isc ib al where
        rl: "root_loop negamax env cur_depth kInfScore root_moves
               (s1, pos, - kInfScore, kNullMove, - kInfScore) = Some (s2, pos2, isc, ib, al)"
        by (subst (asm) deepening_loop.simps) (auto split: option.splits)
      obtain stop2 s3 where st2: "should_stop env s2 = (stop2, s3)" by (cases "should_stop env s2")
      show ?thesis
      proof (cases "stop2 \<or> is_null ib")
        case True
        with 1(2,3,4) le st ns rl st2 show ?thesis
          by (subst (asm) deepening_loop.simps) (auto split: if_splits)
      next
        case False
        with 1(2) le st ns rl st2 have
          d: "deepening_loop negamax env limits (cur_depth + 1)
               (s3, pos2, move_to_front ib root_moves, ib, isc, cur_depth)
              = Some (s', pos', rm', cb', bs', cd')"
          by (subst (asm) deepening_loop.simps) auto
        from root_loop_best[OF rl] False have ib: "ib \<in> set root_moves" by auto
        have "cb' \<in> set (move_to_front ib root_moves) \<and> \<not> is_null cb'"
          by (rule 1(1)[OF le refl st[symmetric] ns rl refl refl refl refl refl st2[symmetric] _ _ d])
            (use False ib in auto)
        then show ?thesis by simp
      qed
    qed
  qed
qed

lemma first_iteration_stopped:
  assumes "deepening_loop negamax env limits 1 (s, pos, rm, cb, bs, 0)
             = Some (s', pos', rm', cb', bs', cd')"
    and "stopped_in_first_iteration negamax env s pos rm"
  shows "cd' = 0"
proof (cases "1 \<le> max_depth limits")
  case False
  with assms(1) show ?thesis by (simp add: deepening_loop.simps)
next
  case le: True
  obtain stop s1 where st: "should_stop env s = (stop, s1)" by (cases "should_stop env s")
  show ?thesis
  proof (cases stop)
    case True
    with assms(1) le st show ?thesis by (simp add: deepening_loop.simps)
  next
    case ns: False
    from assms(1) le st ns obtain s2 pos2 isc ib al where
      rl: "root_loop negamax env 1 kInfScore rm
             (s1, pos, - kInfScore, kNullMove, - kInfScore) = Some (s2, pos2, isc, ib, al)"
      by (subst (asm) deepening_loop.simps) (auto split: option.splits)
    from assms(2) st ns rl have "fst (should_stop env s2)"
      by (simp add: stopped_in_first_iteration_def)
    then obtain s3 where "should_stop env s2 = (True, s3)" by (cases "should_stop env s2") auto
    with assms(1) le st ns rl show ?thesis
      by (subst (asm) deepening_loop.simps) auto
  qed
qed

lemma move_score_defined:
  "from_sq m < 64 \<Longrightarrow> to_sq m < 64 \<Longrightarrow> \<exists>v. move_score s pos m tt_move ply = Some v"
  by (simp add: move_score_def Let_def)

lemma those_scores_defined:
  assumes "\<forall>m\<in>set ml. \<exists>v. g m = Some v"
  shows "\<exists>scored. those (map (\<lambda>m. map_option (Pair m) (g m)) ml) = Some scored"
  using assms
proof (induction ml)
  case Nil
  then show ?case by simp
next
  case (Cons m ml)
  then obtain v scored where "g m = Some v"
    "those (map (\<lambda>m. map_option (Pair m) (g m)) ml) = Some scored" by auto
  then show ?case by simp
qed

lemma order_moves_defined:
  assumes "\<forall>m\<in>set ml. from_sq m < 64 \<and> to_sq m < 64"
  shows "\<exists>ordered. order_moves s pos ml tt_move ply = Some ordered"
proof -
  have "\<forall>m\<in>set ml. \<exists>v. move_score s pos m tt_move ply = Some v"
    using assms move_score_defined by blast
  from those_scores_defined[OF this] show ?thesis
    by (auto simp add: order_moves_def)
qed

lemma first_poll_stopped:
  assumes "fst (should_stop env s)"
  shows "\<exists>s'. deepening_loop negamax env limits 1 (s, pos, rm, cb, bs, cd)
            = Some (s', pos, rm, cb, bs, cd)"
proof -
  from assms obtain s1 where "should_stop env s = (True, s1)"
    by (cases "should_stop env s") auto
  then show ?thesis by (subst deepening_loop.simps) simp
qed

lemma search_returns_when_stopped:
  assumes "legal pos0 = Some (root_moves, pos1)" and "root_moves \<noteq> []"
    and "fst (should_stop env (search_start env s0 limits))"
  shows "\<exists>r s pos. search negamax env s0 pos0 limits = Some (r, s, pos)"
proof -
  have "\<forall>m\<in>set root_moves. from_sq m < 64 \<and> to_sq m < 64"
    using legal_moves_on_board(1,2)[OF assms(1)] by blast
  from order_moves_defined[OF this] obtain ordered where
    "order_moves (search_start env s0 limits) pos1 root_moves kNullMove 0 = Some ordered"
    by blast
  moreover from first_poll_stopped[OF assms(3)] obtain s' where
    "deepening_loop negamax env limits 1
       (search_start env s0 limits, pos1, ordered, ordered ! 0, - kInfScore, 0)
     = Some (s', pos1, ordered, ordered ! 0, - kInfScore, 0)"
    by blast
  ultimately show ?thesis using assms(1,2) by (simp add: search_from_start)
qed

lemma search_result:
  assumes "legal pos0 = Some (root_moves, pos1)"
    and "search negamax env s0 pos0 limits = Some (r, s, pos)"
  shows "(root_moves = [] \<longrightarrow>
            res_best_move r = kNullMove \<and> move_descriptor (res_best_move r) = []
          \<and> res_depth r = 0)
       \<and> (root_moves \<noteq> [] \<longrightarrow>
            (\<exists>ordered.
               order_moves (search_start env s0 limits) pos1 root_moves kNullMove 0 = Some ordered
             \<and> (stopped_in_first_iteration negamax env (search_start env s0 limits) pos1 ordered
                  \<longrightarrow> res_depth r = 0)
             \<and> (res_depth r = 0 \<longrightarrow>
                  res_best_move r = ordered ! 0 \<and> score_cp r = - kInfScore))
          \<and> res_best_move r \<in> set root_moves \<and> \<not> is_null (res_best_move r)
          \<and> move_descriptor (res_best_move r) = uci (res_best_move r)
          \<and> move_descriptor (res_best_move r) \<noteq> [])"
proof (cases "root_moves = []")
  case True
  with assms show ?thesis
    by (auto simp add: search_from_start move_descriptor_def split: bind_splits if_splits)
next
  case False
  let ?st = "search_start env s0 limits"
  from assms False obtain ordered s' rm' cb' bs' cd' where
    om: "order_moves ?st pos1 root_moves kNullMove 0 = Some ordered"
    and dl: "deepening_loop negamax env limits 1 (?st, pos1, ordered, ordered ! 0, - kInfScore, 0)
               = Some (s', pos, rm', cb', bs', cd')"
    and r: "r = \<lparr> res_best_move = cb', score_cp = bs', res_depth = cd', res_nodes = nodes s' \<rparr>"
    by (auto simp add: search_from_start split: bind_splits)
  note os = order_moves_set[OF om]
  from os False have h: "ordered ! 0 \<in> set ordered"
    by (metis length_greater_0_conv nth_mem)
  with os have hr: "ordered ! 0 \<in> set root_moves" by simp
  have hn: "\<not> is_null (ordered ! 0)" by (rule legal_moves_on_board(3)[OF assms(1) hr])
  from deepening_loop_best[OF dl h hn] os r
  have b: "res_best_move r \<in> set root_moves" "\<not> is_null (res_best_move r)" by simp_all
  from deepening_loop_depth[OF dl] r
  have d0: "res_depth r = 0 \<longrightarrow> res_best_move r = ordered ! 0 \<and> score_cp r = - kInfScore"
    by auto
  from first_iteration_stopped[OF dl] r
  have st: "stopped_in_first_iteration negamax env ?st pos1 ordered \<longrightarrow> res_depth r = 0"
    by auto
  from False om st d0 b show ?thesis
    by (auto simp add: move_descriptor_def uci_not_empty)
qed

text \<open>
  Claim C5, amended. Take a position for which \<open>legal\<close> lists the root moves. A search that
  finds the stop condition (cancellation flag set, or deadline passed) at its first poll
  returns whenever there is a root move. Whenever the search returns: if there is no root
  move, the result carries the null move, whose descriptor is the empty string; if there
  are root moves, the result never carries the null move: its move is one of the root moves
  and its descriptor is the UCI text of that move. When the search is stopped before the
  first iteration completes (the poll that opens the first iteration, or the poll that
  closes it, finds the stop condition), the result has depth 0; and a result of depth 0
  carries score \<open>-kInfScore\<close> and the first root move in the order that \<open>order_moves\<close> gives
  from the freshly reset heuristics.
\<close>

theorem search_result_best_move:
  assumes "legal pos0 = Some (root_moves, pos1)"
  shows "(root_moves \<noteq> [] \<longrightarrow> fst (should_stop env (search_start env s0 limits)) \<longrightarrow>
            (\<exists>r s pos. search negamax env s0 pos0 limits = Some (r, s, pos)))
       \<and> (\<forall>r s pos. search negamax env s0 pos0 limits = Some (r, s, pos) \<longrightarrow>
            (root_moves = [] \<longrightarrow>
               res_best_move r = kNullMove \<and> move_descriptor (res_best_move r) = []
             \<and> res_depth r = 0)
          \<and> (root_moves \<noteq> [] \<longrightarrow>
               (\<exists>ordered.
                  order_moves (search_start env s0 limits) pos1 root_moves kNullMove 0
                    = Some ordered
                \<and> (stopped_in_first_iteration negamax env (search_start env s0 limits) pos1
                      ordered \<longrightarrow> res_depth r = 0)
                \<and> (res_depth r = 0 \<longrightarrow>
                     res_best_move r = ordered ! 0 \<and> score_cp r = - kInfScore))
             \<and> res_best_move r \<in> set root_moves \<and> \<not> is_null (res_best_move r)
             \<and> move_descriptor (res_best_move r) = uci (res_best_move r)
             \<and> move_descriptor (res_best_move r) \<noteq> []))"
  using search_returns_when_stopped[OF assms, of env s0 limits negamax]
    search_result[OF assms, of negamax env s0 limits]
  by blast

lemma start_heuristics:
  "killers (search_start env s0 limits) = (\<lambda>ply k. kNullMove)"
  "history_table (search_start env s0 limits) = (\<lambda>c f t. 0)"
  by (simp_all add: search_start_def reset_heuristics_def Let_def)

lemma stopped_P: "stopped_in_first_iteration negamax cancelled_env s pos rm"
  by (simp add: stopped_in_first_iteration_def should_stop_def cancelled_env_def Let_def)

lemma search_P:
  "\<exists>s. search negamax cancelled_env s0 posP limits_example = Some (result_example, s, posP)"
  by (simp add: search_from_start legal_P order_P start_heuristics deepening_cancelled
      result_example_def movesP_def[symmetric])
     (simp add: movesP_def search_start_def limits_example_def reset_heuristics_def)

text \<open>The search cancelled at its first poll in the king and pawn position.\<close>

theorem search_result_best_move_witness:
  "legal posP = Some (movesP, posP) \<and> movesP \<noteq> []
   \<and> (\<exists>s. search no_negamax cancelled_env search_example posP limits_example
              = Some (result_example, s, posP))
   \<and> order_moves (search_start cancelled_env search_example limits_example) posP movesP
        kNullMove 0 = Some movesP
   \<and> stopped_in_first_iteration no_negamax cancelled_env
        (search_start cancelled_env search_example limits_example) posP movesP
   \<and> res_depth result_example = 0
   \<and> res_best_move result_example = movesP ! 0
   \<and> res_best_move result_example \<in> set movesP
   \<and> \<not> is_null (res_best_move result_example)
   \<and> score_cp result_example = - kInfScore"
proof -
  obtain s where s: "search no_negamax cancelled_env search_example posP limits_example
              = Some (result_example, s, posP)"
    using search_P by blast
  have n: "movesP \<noteq> []" by (simp add: movesP_def)
  have o: "order_moves (search_start cancelled_env search_example limits_example) posP movesP
        kNullMove 0 = Some movesP"
    by (rule order_P[OF start_heuristics])
  have f: "fst (should_stop cancelled_env (search_start cancelled_env search_example limits_example))"
    by (simp add: should_stop_def cancelled_env_def Let_def)
  from search_result_best_move[OF legal_P, of cancelled_env search_example limits_example
      no_negamax] n o stopped_P legal_P s f
  show ?thesis by auto
qed

text \<open>
  Claim C5 as written does not hold. In the king and pawn position, which has six legal
  root moves, a search that finds the cancellation flag set at its first poll returns, for
  every search state and whatever \<open>negamax\<close> is, depth 0 and the move e2-e3, whose descriptor
  is \<open>e2e3\<close> and not the empty string.
\<close>

theorem search_cancelled_counterexample:
  "from_fen fenP = Inr posP \<and> legal posP = Some (movesP, posP) \<and> length movesP = 6
   \<and> (\<forall>negamax s0.
          stopped_in_first_iteration negamax cancelled_env
            (search_start cancelled_env s0 limits_example) posP movesP
        \<and> (\<exists>r s pos.
              search negamax cancelled_env s0 posP limits_example = Some (r, s, pos)
            \<and> res_depth r = 0 \<and> res_best_move r = Move 12 20 Normal NoType
            \<and> \<not> is_null (res_best_move r) \<and> move_descriptor (res_best_move r) = ''e2e3''))"
proof -
  have u: "move_descriptor (Move 12 20 Normal NoType) = ''e2e3''" by code_simp
  have n: "\<not> is_null (Move 12 20 Normal NoType)" by (simp add: is_null_def)
  have "\<exists>r s pos. search negamax cancelled_env s0 posP limits_example = Some (r, s, pos)
        \<and> res_depth r = 0 \<and> res_best_move r = Move 12 20 Normal NoType
        \<and> \<not> is_null (res_best_move r) \<and> move_descriptor (res_best_move r) = ''e2e3''"
    for negamax s0
    using search_P[of negamax s0] u n by (auto simp add: result_example_def)
  with from_fen_P legal_P stopped_P show ?thesis by (simp add: movesP_def)
qed

section \<open>Parsing a position descriptor\<close>

lemma fen_rows_not_Nil [simp]: "fen_rows s \<noteq> []"
  by (cases s) simp_all
















end
